theory Spec2Isabelle
  imports Complex_Main "HOL-Library.Disjoint_Sets" "HOL-Library.List_Lexorder"
    "HOL-Library.Product_Lexorder" "HOL-Library.Char_ord"
begin

section \<open>Errors\<close>

text \<open>
  The exceptions the enumerator can raise.  \<open>ValueError\<close> carries its message, since
  the level constructor raises it with two different messages.
\<close>

datatype error =
    ValueError string
  | AssertionError
  | TypeError
  | AttributeError
  | IndexError
  | ZeroDivisionError

section \<open>Cluster labels: class \<open>fset\<close>\<close>

text \<open>
  \<open>class fset(frozenset)\<close>: an immutable finite set of node identifiers.  The
  identifiers are taken from a linear order (the graph6 reader produces integers).
\<close>

type_synonym 'a fset = "'a set"

text \<open>
  The body of the \<open>for idx, el in enumerate(x_sorted)\<close> loop of \<open>__lt__\<close>, run on
  the part of \<open>x_sorted\<close> from \<open>idx\<close> on and the part of \<open>y_sorted\<close> from \<open>idx\<close> on.
  An exhausted \<open>y\<close> is \<open>idx >= len(y_sorted)\<close>; an exhausted \<open>x\<close> leaves the loop, and
  the test after it, \<open>len(x_sorted) < len(y_sorted)\<close>, asks whether \<open>y\<close> has elements
  left.
\<close>

fun lt_loop :: "'a::linorder list \<Rightarrow> 'a list \<Rightarrow> bool" where
  "lt_loop [] ys = (0 < length ys)"
| "lt_loop (el # xs) [] = False"
| "lt_loop (el # xs) (y # ys) =
     (if el < y then True else if el > y then False else lt_loop xs ys)"

text \<open>\<open>fset.__lt__\<close>.  \<open>min\<close> of an empty set raises \<open>ValueError\<close>.\<close>

definition fset_lt :: "'a::linorder fset \<Rightarrow> 'a fset \<Rightarrow> error + bool" where
  "fset_lt x y =
     (if x = {} \<or> y = {} then Inl (ValueError ''min() arg is an empty sequence'')
      else if Min x < Min y then Inr True
      else if Min x > Min y then Inr False
      else Inr (lt_loop (sorted_list_of_set x) (sorted_list_of_set y)))"

text \<open>\<open>__gt__\<close>, \<open>__le__\<close> and \<open>__ge__\<close>, written in terms of \<open>__lt__\<close> and set equality.\<close>

definition fset_gt :: "'a::linorder fset \<Rightarrow> 'a fset \<Rightarrow> error + bool" where
  "fset_gt x y = (case fset_lt x y of Inl e \<Rightarrow> Inl e | Inr b \<Rightarrow> Inr (\<not> b \<and> \<not> x = y))"

definition fset_le :: "'a::linorder fset \<Rightarrow> 'a fset \<Rightarrow> error + bool" where
  "fset_le x y = (case fset_lt x y of Inl e \<Rightarrow> Inl e | Inr b \<Rightarrow> Inr (b \<or> x = y))"

definition fset_ge :: "'a::linorder fset \<Rightarrow> 'a fset \<Rightarrow> error + bool" where
  "fset_ge x y = (case fset_gt x y of Inl e \<Rightarrow> Inl e | Inr b \<Rightarrow> Inr (b \<or> x = y))"

text \<open>
  \<open>freeze\<close> tries \<open>fset(x)\<close> and falls back to \<open>fset([x])\<close> on \<open>TypeError\<close>.  Which
  branch runs depends on the dynamic type of \<open>x\<close> only, so there is one function for each
  type of argument.  A node identifier that is not iterable (an integer, as the graph6
  reader produces) takes the fallback: \<open>freeze_id\<close>.  A label is copied: \<open>freeze_fset\<close>.
  An identifier that is a string is iterable, and the first branch builds the label from
  its members, the one-character strings: \<open>freeze_str\<close>.
\<close>

definition freeze_id :: "'a \<Rightarrow> 'a fset" where
  "freeze_id x = {x}"

definition freeze_str :: "string \<Rightarrow> string fset" where
  "freeze_str x = (\<lambda>c. [c]) ` set x"

definition freeze_fset :: "'a fset \<Rightarrow> 'a fset" where
  "freeze_fset x = x"

text \<open>The comparison of two node identifiers never raises.\<close>

definition id_lt :: "'a::linorder \<Rightarrow> 'a \<Rightarrow> error + bool" where
  "id_lt a b = Inr (a < b)"

section \<open>The graph type of the library\<close>

text \<open>
  \<open>networkx.Graph\<close> keeps an insertion-ordered dictionary from each node to an
  insertion-ordered dictionary of its neighbours.  The model is the association list of
  that dictionary of dictionaries (edge and node attributes are never used).
\<close>

type_synonym 'v Graph = "('v \<times> 'v list) list"

definition has_node :: "'v Graph \<Rightarrow> 'v \<Rightarrow> bool" where
  "has_node g n = (n \<in> set (map fst g))"

definition add_node :: "'v Graph \<Rightarrow> 'v \<Rightarrow> 'v Graph" where
  "add_node g n = (if has_node g n then g else g @ [(n, [])])"

text \<open>\<open>self._adj[u][v] = {}\<close> for a node \<open>u\<close> of the graph.\<close>

fun adj_set :: "'v Graph \<Rightarrow> 'v \<Rightarrow> 'v \<Rightarrow> 'v Graph" where
  "adj_set [] u v = []"
| "adj_set ((n, nbrs) # g) u v =
     (if n = u then (n, if v \<in> set nbrs then nbrs else nbrs @ [v]) # g
      else (n, nbrs) # adj_set g u v)"

definition add_edge :: "'v Graph \<Rightarrow> 'v \<Rightarrow> 'v \<Rightarrow> 'v Graph" where
  "add_edge g u v = adj_set (adj_set (add_node (add_node g u) v) u v) v u"

text \<open>
  Iterating \<open>g.edges\<close>: every node in turn, every neighbour of it that is not a node
  already done.
\<close>

fun edges_seen :: "'v list \<Rightarrow> 'v Graph \<Rightarrow> ('v \<times> 'v) list" where
  "edges_seen seen [] = []"
| "edges_seen seen ((n, nbrs) # g) =
     map (\<lambda>nbr. (n, nbr)) (filter (\<lambda>nbr. nbr \<notin> set seen) nbrs) @ edges_seen (n # seen) g"

definition edges :: "'v Graph \<Rightarrow> ('v \<times> 'v) list" where
  "edges g = edges_seen [] g"

definition nodes :: "'v Graph \<Rightarrow> 'v list" where
  "nodes g = map fst g"

definition order :: "'v Graph \<Rightarrow> nat" where
  "order g = length g"

text \<open>\<open>number_of_edges\<close> and \<open>len(g.edges)\<close>: half the degree sum, a self-loop counting twice.\<close>

definition number_of_edges :: "'v Graph \<Rightarrow> nat" where
  "number_of_edges g =
     (\<Sum>(n, nbrs)\<leftarrow>g. length nbrs + (if n \<in> set nbrs then 1 else 0)) div 2"

text \<open>\<open>e in g.edges\<close>: \<open>v in self._adj[u]\<close>, a missing \<open>u\<close> giving \<open>False\<close>.\<close>

definition has_edge :: "'v Graph \<Rightarrow> 'v \<times> 'v \<Rightarrow> bool" where
  "has_edge g e = (case map_of g (fst e) of None \<Rightarrow> False | Some nbrs \<Rightarrow> snd e \<in> set nbrs)"

text \<open>
  \<open>g.edges == h.edges\<close>: the edge view is a \<open>collections.abc.Set\<close>, whose equality is
  equal length and containment of every element of the left side in the right side.
\<close>

definition edges_eq :: "'v Graph \<Rightarrow> 'v Graph \<Rightarrow> bool" where
  "edges_eq g h = (number_of_edges g = number_of_edges h \<and> list_all (has_edge h) (edges g))"

section \<open>Sorting\<close>

text \<open>
  \<open>sorted\<close> with a comparison that may raise.  The model is the stable insertion sort
  that only asks \<open>y < x\<close> for an element \<open>y\<close> standing behind \<open>x\<close>; on two elements this
  is the single comparison the library makes, and on any list every stable sort gives
  the same result when the comparison is a strict total order that does not raise.
\<close>

fun insort_lt :: "('v \<Rightarrow> 'v \<Rightarrow> error + bool) \<Rightarrow> 'v \<Rightarrow> 'v list \<Rightarrow> error + 'v list" where
  "insort_lt lt x [] = Inr [x]"
| "insort_lt lt x (y # ys) =
     (case lt y x of
        Inl e \<Rightarrow> Inl e
      | Inr b \<Rightarrow>
          if b then (case insort_lt lt x ys of Inl e \<Rightarrow> Inl e | Inr zs \<Rightarrow> Inr (y # zs))
          else Inr (x # y # ys))"

fun py_sorted :: "('v \<Rightarrow> 'v \<Rightarrow> error + bool) \<Rightarrow> 'v list \<Rightarrow> error + 'v list" where
  "py_sorted lt [] = Inr []"
| "py_sorted lt (x # xs) =
     (case py_sorted lt xs of Inl e \<Rightarrow> Inl e | Inr ys \<Rightarrow> insort_lt lt x ys)"

section \<open>Partition nodes: class \<open>SearchSpaceNode\<close>\<close>

text \<open>A partition node holds one attribute, its graph over cluster labels.\<close>

type_synonym 'a SearchSpaceNode = "'a fset Graph"

text \<open>
  \<open>__init__\<close>: first every edge, its two ends sorted and frozen, then every node.  The
  comparison and \<open>freeze\<close> are those of the node type of the argument: \<open>id_lt\<close> and
  \<open>freeze_id\<close> for the input graph, \<open>fset_lt\<close> and \<open>freeze_fset\<close> for a graph over labels.
\<close>

fun init_edges :: "('u \<Rightarrow> 'u \<Rightarrow> error + bool) \<Rightarrow> ('u \<Rightarrow> 'a fset) \<Rightarrow> ('u \<times> 'u) list
    \<Rightarrow> 'a fset Graph \<Rightarrow> error + 'a fset Graph" where
  "init_edges lt freeze [] G = Inr G"
| "init_edges lt freeze (edge # es) G =
     (case py_sorted lt [fst edge, snd edge] of
        Inl e \<Rightarrow> Inl e
      | Inr st \<Rightarrow> init_edges lt freeze es (add_edge G (freeze (st ! 0)) (freeze (st ! 1))))"

definition SearchSpaceNode_init :: "('u \<Rightarrow> 'u \<Rightarrow> error + bool) \<Rightarrow> ('u \<Rightarrow> 'a fset) \<Rightarrow> 'u Graph
    \<Rightarrow> error + 'a SearchSpaceNode" where
  "SearchSpaceNode_init lt freeze g =
     (case init_edges lt freeze (edges g) [] of
        Inl e \<Rightarrow> Inl e
      | Inr G \<Rightarrow> Inr (foldl (\<lambda>G node. add_node G (freeze node)) G (nodes g)))"

text \<open>
  Comparing two pairs of labels as tuples: the first position where they differ (by
  \<open>==\<close>) decides, by \<open><\<close>.
\<close>

definition tuple_lt :: "'a::linorder fset \<times> 'a fset \<Rightarrow> 'a fset \<times> 'a fset \<Rightarrow> error + bool" where
  "tuple_lt p q =
     (if fst p \<noteq> fst q then fset_lt (fst p) (fst q)
      else if snd p \<noteq> snd q then fset_lt (snd p) (snd q)
      else Inr False)"

text \<open>\<open>tuple(tuple(sorted(e)) for e in self._graph.edges)\<close>.\<close>

fun sorted_edges :: "('a::linorder fset \<times> 'a fset) list \<Rightarrow> error + ('a fset \<times> 'a fset) list" where
  "sorted_edges [] = Inr []"
| "sorted_edges (e # es) =
     (case py_sorted fset_lt [fst e, snd e] of
        Inl er \<Rightarrow> Inl er
      | Inr st \<Rightarrow>
          (case sorted_edges es of Inl er \<Rightarrow> Inl er | Inr r \<Rightarrow> Inr ((st ! 0, st ! 1) # r)))"

text \<open>
  \<open>__hash__\<close>, up to the built-in hash of the tuple: the result is the sorted tuple of
  sorted pairs that the built-in hash is applied to.
\<close>

definition node_hash :: "'a::linorder SearchSpaceNode \<Rightarrow> error + ('a fset \<times> 'a fset) list" where
  "node_hash nd =
     (case sorted_edges (edges nd) of Inl er \<Rightarrow> Inl er | Inr ts \<Rightarrow> py_sorted tuple_lt ts)"

text \<open>\<open>__eq__\<close>.\<close>

definition node_eq :: "'a SearchSpaceNode \<Rightarrow> 'a SearchSpaceNode \<Rightarrow> bool" where
  "node_eq a b = edges_eq a b"

text \<open>The inner loop of \<open>expand\<close> over the edges \<open>e\<close> of the node, for the edge \<open>edge\<close>.\<close>

fun merge_edges :: "'v \<times> 'v \<Rightarrow> 'v \<Rightarrow> ('v \<times> 'v) list \<Rightarrow> 'v Graph \<Rightarrow> 'v Graph" where
  "merge_edges edge new_node [] G = G"
| "merge_edges edge new_node (e # es) G =
     (if edge = e then merge_edges edge new_node es G
      else if fst e = fst edge \<or> fst e = snd edge
        then merge_edges edge new_node es (add_edge G new_node (snd e))
      else if snd e = fst edge \<or> snd e = snd edge
        then merge_edges edge new_node es (add_edge G (fst e) new_node)
      else merge_edges edge new_node es (add_edge G (fst e) (snd e)))"

text \<open>One round of the outer loop of \<open>expand\<close>: the child for \<open>edge\<close>, or the failed assertion.\<close>

definition expand_edge :: "'a::linorder SearchSpaceNode \<Rightarrow> 'a fset \<times> 'a fset
    \<Rightarrow> error + 'a SearchSpaceNode" where
  "expand_edge nd edge =
     (let new_node = fst edge \<union> snd edge;
          new_graph = merge_edges edge new_node (edges nd) (add_node [] new_node)
      in if int (order new_graph) = int (order nd) - 1
         then SearchSpaceNode_init fset_lt freeze_fset new_graph
         else Inl AssertionError)"

text \<open>\<open>expand\<close>: the generator's items in order, each a child or the exception raised for it.\<close>

definition node_expand :: "'a::linorder SearchSpaceNode \<Rightarrow> (error + 'a SearchSpaceNode) list" where
  "node_expand nd = map (expand_edge nd) (edges nd)"

text \<open>
  \<open>__str__\<close>, up to the rendering of a label: the sorted labels that are joined by a bar.
\<close>

definition node_str :: "'a::linorder SearchSpaceNode \<Rightarrow> error + 'a fset list" where
  "node_str nd = py_sorted fset_lt (nodes nd)"

section \<open>Levels: class \<open>SearchSpaceLevel\<close>\<close>

text \<open>
  \<open>_nodes\<close> is a set of partition nodes, or \<open>None\<close> once compressed; the model keeps the
  members in the order they were added.  \<open>_next\<close> and \<open>_previous\<close> refer to other level
  objects; the code reads \<open>previous.level\<close> once, in the constructor, and otherwise only
  tests \<open>_next\<close> for being set, so the model keeps whether each is set.
\<close>

record 'a SearchSpaceLevel =
  l_nodes :: "'a SearchSpaceNode list option"
  l_level :: nat
  l_num_partitions :: "nat option"
  l_next :: bool
  l_previous :: bool

text \<open>
  \<open>set.add\<close>: the new member is hashed, and is dropped if a member with the same hash
  compares equal to it.
\<close>

definition set_add :: "'a::linorder SearchSpaceNode list \<Rightarrow> 'a SearchSpaceNode
    \<Rightarrow> error + 'a SearchSpaceNode list" where
  "set_add S x =
     (case node_hash x of
        Inl e \<Rightarrow> Inl e
      | Inr h \<Rightarrow> if list_ex (\<lambda>y. node_hash y = Inr h \<and> node_eq y x) S then Inr S else Inr (S @ [x]))"

text \<open>The truth value of the \<open>graph\<close> argument: \<open>None\<close> is false, a graph is its \<open>len\<close>, the node count.\<close>

definition truthy :: "'u Graph option \<Rightarrow> bool" where
  "truthy graph = (case graph of None \<Rightarrow> False | Some g \<Rightarrow> order g \<noteq> 0)"

definition SearchSpaceLevel_init :: "'a::linorder Graph option \<Rightarrow> 'a SearchSpaceLevel option
    \<Rightarrow> error + 'a SearchSpaceLevel" where
  "SearchSpaceLevel_init graph previous =
     (if truthy graph \<and> previous \<noteq> None
        then Inl (ValueError ''Only one of graph and previous allowed'')
      else if \<not> truthy graph \<and> previous = None
        then Inl (ValueError ''Either graph or previous needed'')
      else if truthy graph then
        (case SearchSpaceNode_init id_lt freeze_id (the graph) of
           Inl e \<Rightarrow> Inl e
         | Inr nd \<Rightarrow>
             (case set_add [] nd of
                Inl e \<Rightarrow> Inl e
              | Inr ns \<Rightarrow> Inr \<lparr>l_nodes = Some ns, l_level = 0, l_num_partitions = None,
                               l_next = False, l_previous = False\<rparr>))
      else Inr \<lparr>l_nodes = Some [], l_level = l_level (the previous) + 1,
                l_num_partitions = None, l_next = False, l_previous = True\<rparr>)"

text \<open>The property \<open>num_partitions\<close>; \<open>len(None)\<close> raises \<open>TypeError\<close>.\<close>

definition num_partitions :: "'a SearchSpaceLevel \<Rightarrow> error + nat" where
  "num_partitions l =
     (case l_num_partitions l of
        Some k \<Rightarrow> Inr k
      | None \<Rightarrow> (case l_nodes l of None \<Rightarrow> Inl TypeError | Some ns \<Rightarrow> Inr (length ns)))"

definition level_add_node :: "'a::linorder SearchSpaceLevel \<Rightarrow> 'a SearchSpaceNode
    \<Rightarrow> error + 'a SearchSpaceLevel" where
  "level_add_node l nd =
     (case l_nodes l of
        None \<Rightarrow> Inl AttributeError
      | Some ns \<Rightarrow> (case set_add ns nd of Inl e \<Rightarrow> Inl e | Inr ns' \<Rightarrow> Inr (l\<lparr>l_nodes := Some ns'\<rparr>)))"

text \<open>The two nested loops of \<open>SearchSpaceLevel.expand\<close>.\<close>

fun add_children :: "(error + 'a::linorder SearchSpaceNode) list \<Rightarrow> 'a SearchSpaceLevel
    \<Rightarrow> error + 'a SearchSpaceLevel" where
  "add_children [] nxt = Inr nxt"
| "add_children (c # cs) nxt =
     (case c of
        Inl e \<Rightarrow> Inl e
      | Inr new_node \<Rightarrow>
          (case level_add_node nxt new_node of Inl e \<Rightarrow> Inl e | Inr nxt' \<Rightarrow> add_children cs nxt'))"

fun expand_nodes :: "'a::linorder SearchSpaceNode list \<Rightarrow> 'a SearchSpaceLevel
    \<Rightarrow> error + 'a SearchSpaceLevel" where
  "expand_nodes [] nxt = Inr nxt"
| "expand_nodes (nd # nds) nxt =
     (case add_children (node_expand nd) nxt of Inl e \<Rightarrow> Inl e | Inr nxt' \<Rightarrow> expand_nodes nds nxt')"

text \<open>
  \<open>SearchSpaceLevel.expand\<close>: the result (the next level, or the exception) and the
  level itself as the call leaves it.
\<close>

definition level_expand :: "'a::linorder SearchSpaceLevel
    \<Rightarrow> (error + 'a SearchSpaceLevel) \<times> 'a SearchSpaceLevel" where
  "level_expand l =
     (if l_next l then (Inl (ValueError ''Already expanded''), l)
      else case SearchSpaceLevel_init None (Some l) of
        Inl e \<Rightarrow> (Inl e, l)
      | Inr nxt \<Rightarrow>
          (case l_nodes l of
             None \<Rightarrow> (Inl TypeError, l\<lparr>l_next := True\<rparr>)
           | Some ns \<Rightarrow> (expand_nodes ns nxt, l\<lparr>l_next := True\<rparr>)))"

definition compress :: "'a SearchSpaceLevel \<Rightarrow> 'a SearchSpaceLevel" where
  "compress l =
     (case l_nodes l of
        Some ns \<Rightarrow> l\<lparr>l_num_partitions := Some (length ns), l_nodes := None\<rparr>
      | None \<Rightarrow> l)"

text \<open>\<open>mean_num_edges\<close>; the quotient is taken in the rationals.\<close>

definition mean_num_edges :: "'a SearchSpaceLevel \<Rightarrow> error + rat" where
  "mean_num_edges l =
     (case l_nodes l of
        None \<Rightarrow> Inl (ValueError ''The search space is compressed, computation impossible'')
      | Some ns \<Rightarrow>
          if length ns = 0 then Inl ZeroDivisionError
          else Inr (of_nat (sum_list (map number_of_edges ns)) / of_nat (length ns)))"

section \<open>The build loop terminates\<close>

text \<open>
  The node set and the adjacency relation of a graph, and the two properties every graph
  built by \<open>add_node\<close> and \<open>add_edge\<close> has: no node is listed twice, and every
  neighbour is a node.
\<close>

definition gkeys :: "'v Graph \<Rightarrow> 'v set" where
  "gkeys g = set (map fst g)"

definition grel :: "'v Graph \<Rightarrow> ('v \<times> 'v) set" where
  "grel g = {(n, nbr). \<exists>nbrs. (n, nbrs) \<in> set g \<and> nbr \<in> set nbrs}"

definition closed_graph :: "'v Graph \<Rightarrow> bool" where
  "closed_graph g = (distinct (map fst g) \<and> Field (grel g) \<subseteq> gkeys g)"

lemma gkeys_Nil [simp]: "gkeys [] = {}"
  by (simp add: gkeys_def)

lemma grel_Nil [simp]: "grel [] = {}"
  by (simp add: grel_def)

lemma gkeys_add_node [simp]: "gkeys (add_node g n) = insert n (gkeys g)"
  by (auto simp: gkeys_def add_node_def has_node_def)

lemma grel_add_node [simp]: "grel (add_node g n) = grel g"
  by (auto simp: grel_def add_node_def)

lemma distinct_add_node: "distinct (map fst g) \<Longrightarrow> distinct (map fst (add_node g n))"
  by (auto simp: add_node_def has_node_def)

lemma map_fst_adj_set [simp]: "map fst (adj_set g u v) = map fst g"
  by (induction g u v rule: adj_set.induct) auto

lemma gkeys_adj_set [simp]: "gkeys (adj_set g u v) = gkeys g"
  by (simp add: gkeys_def)

lemma grel_Cons: "grel ((n, nbrs) # g) = {(n, nbr) | nbr. nbr \<in> set nbrs} \<union> grel g"
  by (auto simp: grel_def)

lemma grel_adj_set: "u \<in> gkeys g \<Longrightarrow> grel (adj_set g u v) = insert (u, v) (grel g)"
proof (induction g u v rule: adj_set.induct)
  case (1 u v)
  then show ?case by simp
next
  case (2 n nbrs g u v)
  show ?case
  proof (cases "n = u")
    case True
    then show ?thesis by (auto simp: grel_Cons)
  next
    case False
    with 2 have "u \<in> gkeys g" by (simp add: gkeys_def)
    with 2 False show ?thesis by (auto simp: grel_Cons)
  qed
qed

lemma gkeys_add_edge [simp]: "gkeys (add_edge g u v) = insert u (insert v (gkeys g))"
  by (auto simp: add_edge_def)

lemma grel_add_edge [simp]: "grel (add_edge g u v) = insert (u, v) (insert (v, u) (grel g))"
  by (auto simp: add_edge_def grel_adj_set)

lemma distinct_add_edge: "distinct (map fst g) \<Longrightarrow> distinct (map fst (add_edge g u v))"
  by (simp add: add_edge_def distinct_add_node)

lemma closed_graph_Nil [simp]: "closed_graph []"
  by (simp add: closed_graph_def)

lemma closed_graph_add_node: "closed_graph g \<Longrightarrow> closed_graph (add_node g n)"
  by (auto simp: closed_graph_def distinct_add_node)

lemma closed_graph_add_edge: "closed_graph g \<Longrightarrow> closed_graph (add_edge g u v)"
  by (auto simp: closed_graph_def distinct_add_edge Field_def)

lemma edges_seen_subset: "set (edges_seen seen g) \<subseteq> grel g"
  by (induction seen g rule: edges_seen.induct) (auto simp: grel_Cons)

lemma edges_subset: "set (edges g) \<subseteq> grel g"
  by (simp add: edges_def edges_seen_subset)

lemma order_card: "distinct (map fst g) \<Longrightarrow> order g = card (gkeys g)"
  using distinct_card[of "map fst g"] by (simp add: order_def gkeys_def)


text \<open>The symmetric closure of a relation.\<close>

definition symcl :: "('v \<times> 'v) set \<Rightarrow> ('v \<times> 'v) set" where
  "symcl R = R \<union> R\<inverse>"

lemma py_sorted_pair:
  "py_sorted lt [u, v] = Inr st \<Longrightarrow> st = [u, v] \<or> st = [v, u]"
  by (auto split: sum.splits if_splits)

lemma init_edges_props:
  "init_edges lt fr es G = Inr G' \<Longrightarrow>
     gkeys G' = gkeys G \<union> fr ` (fst ` set es \<union> snd ` set es) \<and>
     grel G' = grel G \<union> symcl (map_prod fr fr ` set es) \<and>
     (distinct (map fst G) \<longrightarrow> distinct (map fst G'))"
proof (induction lt fr es G arbitrary: G' rule: init_edges.induct)
  case (1 lt freeze G)
  then show ?case by (simp add: symcl_def)
next
  case (2 lt freeze edge es G)
  from "2.prems" obtain st where st: "py_sorted lt [fst edge, snd edge] = Inr st"
    and rec: "init_edges lt freeze es (add_edge G (freeze (st ! 0)) (freeze (st ! 1))) = Inr G'"
    by (auto split: sum.splits simp del: py_sorted.simps)
  from py_sorted_pair[OF st] have cases: "st = [fst edge, snd edge] \<or> st = [snd edge, fst edge]" .
  note IH = "2.IH"[OF st rec]
  from cases show ?case
  proof
    assume "st = [fst edge, snd edge]"
    with IH show ?thesis
      by (cases edge) (auto simp: symcl_def distinct_add_edge)
  next
    assume "st = [snd edge, fst edge]"
    with IH show ?thesis
      by (cases edge) (auto simp: symcl_def distinct_add_edge)
  qed
qed

lemma foldl_add_node_props:
  "gkeys (foldl (\<lambda>G node. add_node G (fr node)) G ns) = gkeys G \<union> fr ` set ns \<and>
   grel (foldl (\<lambda>G node. add_node G (fr node)) G ns) = grel G \<and>
   (distinct (map fst G) \<longrightarrow> distinct (map fst (foldl (\<lambda>G node. add_node G (fr node)) G ns)))"
  by (induction ns arbitrary: G) (auto simp: distinct_add_node)

lemma SearchSpaceNode_init_props:
  assumes "SearchSpaceNode_init lt fr g = Inr nd"
  shows "gkeys nd = fr ` (gkeys g \<union> fst ` set (edges g) \<union> snd ` set (edges g))"
    and "grel nd = symcl (map_prod fr fr ` set (edges g))"
    and "distinct (map fst nd)"
proof -
  from assms obtain G where G: "init_edges lt fr (edges g) [] = Inr G"
    and nd: "nd = foldl (\<lambda>G node. add_node G (fr node)) G (nodes g)"
    by (auto simp: SearchSpaceNode_init_def split: sum.splits)
  from init_edges_props[OF G] foldl_add_node_props[of fr G "nodes g"]
  show "gkeys nd = fr ` (gkeys g \<union> fst ` set (edges g) \<union> snd ` set (edges g))"
    and "grel nd = symcl (map_prod fr fr ` set (edges g))"
    and "distinct (map fst nd)"
    unfolding nd by (auto simp: nodes_def gkeys_def)
qed

lemma closed_graph_merge_edges:
  "closed_graph G \<Longrightarrow> closed_graph (merge_edges edge new_node es G)"
  by (induction edge new_node es G rule: merge_edges.induct) (auto simp: closed_graph_add_edge)

lemma edges_endpoints_closed:
  assumes "closed_graph g"
  shows "fst ` set (edges g) \<subseteq> gkeys g" and "snd ` set (edges g) \<subseteq> gkeys g"
  using assms edges_subset[of g] by (auto simp: closed_graph_def Field_def Domain_fst Range_snd)

lemma SearchSpaceNode_init_order:
  assumes "SearchSpaceNode_init lt freeze_fset g = Inr nd" and "closed_graph g"
  shows "order nd = order g"
proof -
  have "gkeys nd = gkeys g"
    using SearchSpaceNode_init_props(1)[OF assms(1)] edges_endpoints_closed[OF assms(2)]
    by (auto simp: freeze_fset_def)
  moreover have "distinct (map fst nd)" by (rule SearchSpaceNode_init_props(3)[OF assms(1)])
  moreover have "distinct (map fst g)" using assms(2) by (simp add: closed_graph_def)
  ultimately show ?thesis by (simp add: order_card)
qed

lemma expand_edge_order:
  assumes "expand_edge nd edge = Inr c"
  shows "int (order c) = int (order nd) - 1"
proof -
  let ?h = "merge_edges edge (fst edge \<union> snd edge) (edges nd) (add_node [] (fst edge \<union> snd edge))"
  from assms have a: "int (order ?h) = int (order nd) - 1"
    and i: "SearchSpaceNode_init fset_lt freeze_fset ?h = Inr c"
    by (auto simp: expand_edge_def Let_def split: if_splits)
  have "closed_graph ?h"
    by (intro closed_graph_merge_edges closed_graph_add_node) simp
  from SearchSpaceNode_init_order[OF i this] a show ?thesis by simp
qed

lemma set_add_subset: "set_add S x = Inr S' \<Longrightarrow> set S' \<subseteq> insert x (set S)"
  by (auto simp: set_add_def split: sum.splits if_splits)

text \<open>
  A fresh level all of whose nodes have fewer vertices than some node of \<open>ps\<close>; the
  assertion in \<open>expand\<close> makes every child such a node.
\<close>

definition below :: "'a SearchSpaceNode set \<Rightarrow> 'a SearchSpaceLevel \<Rightarrow> bool" where
  "below ps l = (l_num_partitions l = None \<and>
     (\<exists>ns. l_nodes l = Some ns \<and> (\<forall>c\<in>set ns. \<exists>p\<in>ps. order c < order p)))"

lemma below_mono: "below ps l \<Longrightarrow> ps \<subseteq> qs \<Longrightarrow> below qs l"
  by (auto simp: below_def) blast

lemma level_add_node_below:
  "level_add_node l c = Inr l' \<Longrightarrow> below ps l \<Longrightarrow> \<exists>p\<in>ps. order c < order p \<Longrightarrow> below ps l'"
proof -
  assume a: "level_add_node l c = Inr l'" and b: "below ps l" and c: "\<exists>p\<in>ps. order c < order p"
  from b obtain ns where ns: "l_nodes l = Some ns" "l_num_partitions l = None"
    and bs: "\<forall>c\<in>set ns. \<exists>p\<in>ps. order c < order p"
    by (auto simp: below_def)
  from a ns obtain ns' where ns': "set_add ns c = Inr ns'" and l': "l' = l\<lparr>l_nodes := Some ns'\<rparr>"
    by (auto simp: level_add_node_def split: sum.splits)
  from set_add_subset[OF ns'] bs c have "\<forall>c\<in>set ns'. \<exists>p\<in>ps. order c < order p"
    by blast
  with l' ns show "below ps l'" by (simp add: below_def)
qed

lemma add_children_below:
  "add_children cs nxt = Inr nxt' \<Longrightarrow> below ps nxt \<Longrightarrow>
     (\<forall>c. Inr c \<in> set cs \<longrightarrow> (\<exists>p\<in>ps. order c < order p)) \<Longrightarrow> below ps nxt'"
proof (induction cs nxt arbitrary: nxt' rule: add_children.induct)
  case (1 nxt)
  then show ?case by simp
next
  case (2 c cs nxt)
  from "2.prems"(1) obtain nd l1 where c: "c = Inr nd" and l1: "level_add_node nxt nd = Inr l1"
    and rest: "add_children cs l1 = Inr nxt'"
    by (auto split: sum.splits)
  have "below ps l1"
    using level_add_node_below[OF l1 "2.prems"(2)] "2.prems"(3) c by auto
  with "2.IH"[OF c l1 rest] "2.prems"(3) show ?case by auto
qed

lemma node_expand_order:
  assumes "Inr c \<in> set (node_expand nd)"
  shows "order c < order nd"
proof -
  from assms obtain e where "expand_edge nd e = Inr c"
    by (auto simp: node_expand_def)
  from expand_edge_order[OF this] show ?thesis by simp
qed

lemma expand_nodes_below:
  "expand_nodes ns nxt = Inr nxt' \<Longrightarrow> below ps nxt \<Longrightarrow> set ns \<subseteq> ps \<Longrightarrow> below ps nxt'"
proof (induction ns nxt arbitrary: nxt' rule: expand_nodes.induct)
  case (1 nxt)
  then show ?case by simp
next
  case (2 nd nds nxt)
  from "2.prems"(1) obtain l1 where l1: "add_children (node_expand nd) nxt = Inr l1"
    and rest: "expand_nodes nds l1 = Inr nxt'"
    by (auto split: sum.splits)
  have "below ps l1"
    using add_children_below[OF l1 "2.prems"(2)] node_expand_order[of _ nd] "2.prems"(3) by auto
  with "2.IH"[OF l1 rest] "2.prems"(3) show ?case by auto
qed

lemma level_expand_below:
  assumes "level_expand l = (Inr nxt, l')"
  shows "\<exists>ns. l_nodes l = Some ns \<and> below (set ns) nxt"
proof -
  from assms obtain ns l0 where ns: "l_nodes l = Some ns"
    and l0: "SearchSpaceLevel_init None (Some l) = Inr l0"
    and ex: "expand_nodes ns l0 = Inr nxt"
    by (auto simp: level_expand_def split: if_splits sum.splits option.splits)
  from l0 have "below (set ns) l0"
    by (auto simp: SearchSpaceLevel_init_def below_def truthy_def split: if_splits)
  from expand_nodes_below[OF ex this] ns show ?thesis by auto
qed

text \<open>The measure of the loop: the largest vertex count in the level, plus one.\<close>

definition level_size :: "'a SearchSpaceLevel \<Rightarrow> nat" where
  "level_size l = (case l_nodes l of None \<Rightarrow> 0 | Some ns \<Rightarrow> Max (insert 0 ((\<lambda>n. Suc (order n)) ` set ns)))"

lemma below_level_size:
  assumes "below (set ns) nxt" and "l_nodes l = Some ns" and "ns \<noteq> []"
  shows "level_size nxt < level_size l"
proof -
  from assms(1) obtain cs where cs: "l_nodes nxt = Some cs"
    and b: "\<forall>c\<in>set cs. \<exists>p\<in>set ns. order c < order p"
    by (auto simp: below_def)
  let ?P = "insert 0 ((\<lambda>n. Suc (order n)) ` set ns)"
  have fin: "finite ?P" by simp
  have pos: "0 < Max ?P"
  proof -
    from assms(3) obtain p where "p \<in> set ns" by (cases ns) auto
    then have "Suc (order p) \<le> Max ?P" by (intro Max_ge) auto
    then show ?thesis by simp
  qed
  have "Max (insert 0 ((\<lambda>n. Suc (order n)) ` set cs)) < Max ?P"
  proof (subst Max_less_iff)
    show "finite (insert 0 ((\<lambda>n. Suc (order n)) ` set cs))" by simp
    show "insert 0 ((\<lambda>n. Suc (order n)) ` set cs) \<noteq> {}" by simp
    show "\<forall>a\<in>insert 0 ((\<lambda>n. Suc (order n)) ` set cs). a < Max ?P"
    proof
      fix a assume "a \<in> insert 0 ((\<lambda>n. Suc (order n)) ` set cs)"
      then consider "a = 0" | c where "c \<in> set cs" "a = Suc (order c)" by auto
      then show "a < Max ?P"
      proof cases
        case 1
        with pos show ?thesis by simp
      next
        case 2
        with b obtain p where p: "p \<in> set ns" "order c < order p" by auto
        then have "Suc (order p) \<le> Max ?P" by (intro Max_ge) auto
        with p 2 show ?thesis by linarith
      qed
    qed
  qed
  with cs assms(2) show ?thesis by (simp add: level_size_def)
qed

text \<open>
  The \<open>while\<close> loop of \<open>build\<close> on the list \<open>self._levels\<close>, with \<open>c\<close> the compress
  flag: the result is the exception, if one is raised, and the list as the loop leaves
  it.  \<open>expand\<close> changes the last level before the new one is appended, and then the
  level before the new one is compressed.
\<close>

function build_loop :: "bool \<Rightarrow> 'a::linorder SearchSpaceLevel list
    \<Rightarrow> (error + unit) \<times> 'a SearchSpaceLevel list" where
  "build_loop c ls =
     (if ls = [] then (Inl IndexError, ls)
      else case num_partitions (last ls) of
        Inl e \<Rightarrow> (Inl e, ls)
      | Inr k \<Rightarrow>
          if k > 1 then
            (case level_expand (last ls) of
               (Inl e, l') \<Rightarrow> (Inl e, butlast ls @ [l'])
             | (Inr nxt, l') \<Rightarrow>
                 build_loop c (butlast ls @ [if c then compress l' else l', nxt]))
          else (Inr (), ls))"
  by pat_completeness auto
termination
proof (relation "inv_image (less_than <*lex*> less_than)
    (\<lambda>(c, ls). (if l_num_partitions (last ls) = None then 0::nat else 1, level_size (last ls)))")
  show "wf (inv_image (less_than <*lex*> less_than)
    (\<lambda>(c::bool, ls::'a SearchSpaceLevel list).
       (if l_num_partitions (last ls) = None then 0::nat else 1, level_size (last ls))))"
    by (rule wf_inv_image) (rule wf_lex_prod, rule wf_less_than, rule wf_less_than)
next
  fix c :: bool and ls :: "'a SearchSpaceLevel list" and b x y ba
  assume 2: "ls \<noteq> []" "num_partitions (last ls) = Inr b" "1 < b"
    "(x, y) = level_expand (last ls)" "x = Inr ba"
  from 2(4,5) have le: "level_expand (last ls) = (Inr ba, y)" by simp
  from level_expand_below[OF le] obtain ns where ns: "l_nodes (last ls) = Some ns"
    and bl: "below (set ns) ba" by auto
  from bl have none: "l_num_partitions ba = None" by (simp add: below_def)
  show "((c, butlast ls @ [if c then compress y else y, ba]), c, ls)
       \<in> inv_image (less_than <*lex*> less_than)
           (\<lambda>(c, ls). (if l_num_partitions (last ls) = None then 0::nat else 1, level_size (last ls)))"
  proof (cases "l_num_partitions (last ls)")
    case None
    with 2(2,3) ns have "ns \<noteq> []" by (auto simp: num_partitions_def)
    from below_level_size[OF bl ns this] None none show ?thesis by simp
  next
    case (Some k)
    with none show ?thesis by simp
  qed
qed


declare build_loop.simps [simp del]

section \<open>The search space: class \<open>SearchSpace\<close>\<close>

record 'a SearchSpace =
  s_graph :: "'a Graph"
  s_compress :: bool
  s_levels :: "'a SearchSpaceLevel list option"

definition SearchSpace_init :: "'a Graph \<Rightarrow> bool \<Rightarrow> 'a SearchSpace" where
  "SearchSpace_init graph compr = \<lparr>s_graph = graph, s_compress = compr, s_levels = None\<rparr>"

text \<open>
  \<open>build\<close>: the returned list (or the exception) and the search space as the call
  leaves it.  \<open>self._levels\<close> is assigned once the first two levels exist.
\<close>

definition build :: "'a::linorder SearchSpace
    \<Rightarrow> (error + 'a SearchSpaceLevel list) \<times> 'a SearchSpace" where
  "build sp =
     (case SearchSpaceLevel_init (Some (s_graph sp)) None of
        Inl e \<Rightarrow> (Inl e, sp)
      | Inr first_level \<Rightarrow>
          (case level_expand first_level of
             (Inl e, first_level') \<Rightarrow> (Inl e, sp)
           | (Inr second_level, first_level') \<Rightarrow>
               (case build_loop (s_compress sp)
                       [if s_compress sp then compress first_level' else first_level', second_level] of
                  (Inl e, ls) \<Rightarrow> (Inl e, sp\<lparr>s_levels := Some ls\<rparr>)
                | (Inr u, ls) \<Rightarrow>
                    (let ls' = (if s_compress sp then butlast ls @ [compress (last ls)] else ls)
                     in (Inr ls', sp\<lparr>s_levels := Some ls'\<rparr>)))))"

text \<open>
  The level constructor and \<open>build\<close> once more, with the \<open>freeze\<close> of the identifiers of
  the input graph as an argument: \<open>SearchSpaceLevel_init\<close> and \<open>build\<close> above are the
  two at \<open>freeze_id\<close>, for identifiers that are not iterable, and at \<open>freeze_str\<close> they
  are the same code run on a graph whose identifiers are strings.
\<close>

definition SearchSpaceLevel_init_with :: "('a \<Rightarrow> 'a fset) \<Rightarrow> 'a::linorder Graph option
    \<Rightarrow> 'a SearchSpaceLevel option \<Rightarrow> error + 'a SearchSpaceLevel" where
  "SearchSpaceLevel_init_with freeze graph previous =
     (if truthy graph \<and> previous \<noteq> None
        then Inl (ValueError ''Only one of graph and previous allowed'')
      else if \<not> truthy graph \<and> previous = None
        then Inl (ValueError ''Either graph or previous needed'')
      else if truthy graph then
        (case SearchSpaceNode_init id_lt freeze (the graph) of
           Inl e \<Rightarrow> Inl e
         | Inr nd \<Rightarrow>
             (case set_add [] nd of
                Inl e \<Rightarrow> Inl e
              | Inr ns \<Rightarrow> Inr \<lparr>l_nodes = Some ns, l_level = 0, l_num_partitions = None,
                               l_next = False, l_previous = False\<rparr>))
      else Inr \<lparr>l_nodes = Some [], l_level = l_level (the previous) + 1,
                l_num_partitions = None, l_next = False, l_previous = True\<rparr>)"

definition build_with :: "('a \<Rightarrow> 'a fset) \<Rightarrow> 'a::linorder SearchSpace
    \<Rightarrow> (error + 'a SearchSpaceLevel list) \<times> 'a SearchSpace" where
  "build_with freeze sp =
     (case SearchSpaceLevel_init_with freeze (Some (s_graph sp)) None of
        Inl e \<Rightarrow> (Inl e, sp)
      | Inr first_level \<Rightarrow>
          (case level_expand first_level of
             (Inl e, first_level') \<Rightarrow> (Inl e, sp)
           | (Inr second_level, first_level') \<Rightarrow>
               (case build_loop (s_compress sp)
                       [if s_compress sp then compress first_level' else first_level', second_level] of
                  (Inl e, ls) \<Rightarrow> (Inl e, sp\<lparr>s_levels := Some ls\<rparr>)
                | (Inr u, ls) \<Rightarrow>
                    (let ls' = (if s_compress sp then butlast ls @ [compress (last ls)] else ls)
                     in (Inr ls', sp\<lparr>s_levels := Some ls'\<rparr>)))))"

definition num_nodes :: "'a SearchSpace \<Rightarrow> nat" where
  "num_nodes sp = order (s_graph sp)"

definition num_edges :: "'a SearchSpace \<Rightarrow> nat" where
  "num_edges sp = number_of_edges (s_graph sp)"

definition num_levels :: "'a SearchSpace \<Rightarrow> error + nat" where
  "num_levels sp = (case s_levels sp of None \<Rightarrow> Inl TypeError | Some ls \<Rightarrow> Inr (length ls))"

subsection \<open>The combinatorics library\<close>

text \<open>
  The functions of the computer algebra library that the bounds call: the Stirling
  numbers of the second kind, the Bell numbers and the binomial coefficients.  The
  Stirling number is modelled for \<open>0 \<le> k\<close>, which covers every level index up to the
  number of nodes; for a negative \<open>k\<close> the result of the library depends on its version
  and the value 0 given here is a placeholder.
\<close>

fun stirling2 :: "nat \<Rightarrow> nat \<Rightarrow> nat" where
  "stirling2 0 0 = 1"
| "stirling2 0 (Suc k) = 0"
| "stirling2 (Suc n) 0 = 0"
| "stirling2 (Suc n) (Suc k) = Suc k * stirling2 n (Suc k) + stirling2 n k"

definition sympy_stirling :: "nat \<Rightarrow> int \<Rightarrow> int" where
  "sympy_stirling n k = (if k < 0 \<or> k > int n then 0 else int (stirling2 n (nat k)))"

definition sympy_bell :: "nat \<Rightarrow> int" where
  "sympy_bell n = int (\<Sum>k\<leftarrow>[0..<Suc n]. stirling2 n k)"

definition sympy_binomial :: "int \<Rightarrow> int \<Rightarrow> int" where
  "sympy_binomial n k =
     (if k < 0 then 0
      else if 0 \<le> n then int (nat n choose nat k)
      else (- 1) ^ nat k * int (nat (k - n - 1) choose nat k))"

subsection \<open>Statistics\<close>

definition bell :: "'a SearchSpace \<Rightarrow> int" where
  "bell sp = sympy_bell (num_nodes sp)"

definition num_partitions_ub :: "'a SearchSpace \<Rightarrow> int" where
  "num_partitions_ub sp = bell sp"

text \<open>\<open>2 ** (self.num_nodes - 1)\<close>: an integer, or one half for a graph without nodes.\<close>

definition num_partitions_lb :: "'a SearchSpace \<Rightarrow> rat" where
  "num_partitions_lb sp = (if num_nodes sp = 0 then 1 / 2 else 2 ^ (num_nodes sp - 1))"

text \<open>Indexing a list the way the language does: a negative index counts from the end.\<close>

definition py_index :: "'x list \<Rightarrow> int \<Rightarrow> error + 'x" where
  "py_index xs i =
     (if 0 \<le> i \<and> i < int (length xs) then Inr (xs ! nat i)
      else if i < 0 \<and> - int (length xs) \<le> i then Inr (xs ! nat (int (length xs) + i))
      else Inl IndexError)"

fun sum_partitions :: "'a SearchSpaceLevel list \<Rightarrow> error + nat" where
  "sum_partitions [] = Inr 0"
| "sum_partitions (l # ls) =
     (case num_partitions l of
        Inl e \<Rightarrow> Inl e
      | Inr k \<Rightarrow> (case sum_partitions ls of Inl e \<Rightarrow> Inl e | Inr s \<Rightarrow> Inr (k + s)))"

text \<open>\<open>num_partitions(level=None)\<close>, the sum over all levels, and \<open>num_partitions(level)\<close>.\<close>

definition num_partitions_total :: "'a SearchSpace \<Rightarrow> error + nat" where
  "num_partitions_total sp =
     (case s_levels sp of None \<Rightarrow> Inl TypeError | Some ls \<Rightarrow> sum_partitions ls)"

definition num_partitions_at :: "'a SearchSpace \<Rightarrow> int \<Rightarrow> error + nat" where
  "num_partitions_at sp level =
     (case s_levels sp of
        None \<Rightarrow> Inl TypeError
      | Some ls \<Rightarrow> (case py_index ls level of Inl e \<Rightarrow> Inl e | Inr l \<Rightarrow> num_partitions l))"

definition stirling :: "'a SearchSpace \<Rightarrow> int \<Rightarrow> int" where
  "stirling sp level = sympy_stirling (num_nodes sp) (int (num_nodes sp) - level)"

definition num_k_partitions_ub :: "'a SearchSpace \<Rightarrow> int \<Rightarrow> int" where
  "num_k_partitions_ub sp level = stirling sp level"

definition num_k_partitions_lb :: "'a SearchSpace \<Rightarrow> int \<Rightarrow> int" where
  "num_k_partitions_lb sp level =
     sympy_binomial (int (num_nodes sp) - 1) (int (num_nodes sp) - level - 1)"

subsection \<open>Printing\<close>

text \<open>
  What \<open>print_results\<close> prints, one value per \<open>print\<close> call, holding the values that are
  formatted into the line.  The dump of a level holds, for every node, the sorted labels
  that its string is made of.
\<close>

datatype 'a line =
    BellLine int
  | ActualLine nat
  | LevelLine nat int int nat
  | NodesLine "'a fset list list"
  | EmptyLine

fun nodes_strs :: "'a::linorder SearchSpaceNode list \<Rightarrow> error + 'a fset list list" where
  "nodes_strs [] = Inr []"
| "nodes_strs (nd # nds) =
     (case node_str nd of
        Inl e \<Rightarrow> Inl e
      | Inr s \<Rightarrow> (case nodes_strs nds of Inl e \<Rightarrow> Inl e | Inr r \<Rightarrow> Inr (s # r)))"

text \<open>
  One round of the loop over the levels: the lines printed, and the exception if one is
  raised.  \<open>level.nodes and print_nodes\<close> is false for a compressed level (\<open>None\<close>) and for
  an empty one.
\<close>

definition print_level :: "'a::linorder SearchSpace \<Rightarrow> bool \<Rightarrow> 'a SearchSpaceLevel
    \<Rightarrow> 'a line list \<times> error option" where
  "print_level sp print_nodes l =
     (case num_partitions l of
        Inl e \<Rightarrow> ([], Some e)
      | Inr p \<Rightarrow>
          (let ln = LevelLine (l_level l) (int (num_nodes sp) - int (l_level l))
                      (stirling sp (int (l_level l))) p
           in case l_nodes l of
                None \<Rightarrow> ([ln], None)
              | Some ns \<Rightarrow>
                  if ns \<noteq> [] \<and> print_nodes then
                    (case nodes_strs ns of
                       Inl e \<Rightarrow> ([ln], Some e)
                     | Inr strs \<Rightarrow> ([ln, NodesLine strs], None))
                  else ([ln], None)))"

fun print_levels :: "'a::linorder SearchSpace \<Rightarrow> bool \<Rightarrow> 'a SearchSpaceLevel list
    \<Rightarrow> 'a line list \<times> error option" where
  "print_levels sp print_nodes [] = ([], None)"
| "print_levels sp print_nodes (l # ls) =
     (case print_level sp print_nodes l of
        (out, Some e) \<Rightarrow> (out, Some e)
      | (out, None) \<Rightarrow>
          (case print_levels sp print_nodes ls of (out', r) \<Rightarrow> (out @ out', r)))"

definition print_results :: "'a::linorder SearchSpace \<Rightarrow> bool \<Rightarrow> 'a line list \<times> error option" where
  "print_results sp print_nodes =
     (case num_partitions_total sp of
        Inl e \<Rightarrow> ([BellLine (bell sp)], Some e)
      | Inr tot \<Rightarrow>
          (case print_levels sp print_nodes (the (s_levels sp)) of
             (out, Some e) \<Rightarrow> ([BellLine (bell sp), ActualLine tot] @ out, Some e)
           | (out, None) \<Rightarrow> ([BellLine (bell sp), ActualLine tot] @ out @ [EmptyLine], None)))"

subsection \<open>The graphs of the examples\<close>

text \<open>
  The cycle on the nodes 1, 2, 3, 4, the path on 1, 2, the graph of the single node 1,
  and the graph on 1, 2 with the edge 1-2 and a self-loop at 1.
\<close>

definition cycle4 :: "nat Graph" where
  "cycle4 = add_edge (add_edge (add_edge (add_edge [] 1 2) 2 3) 3 4) 4 1"

definition path2 :: "nat Graph" where
  "path2 = add_edge [] 1 2"

definition single1 :: "nat Graph" where
  "single1 = add_node [] 1"

definition loop_graph :: "nat Graph" where
  "loop_graph = add_edge (add_edge [] 1 1) 1 2"

text \<open>
  Two graphs whose node identifiers are strings: the path \<open>'ab'\<close>, \<open>'b'\<close>, \<open>'bc'\<close>, and
  the single edge between \<open>'ab'\<close> and \<open>'ba'\<close>.
\<close>

definition str_path :: "string Graph" where
  "str_path = add_edge (add_edge [] ''ab'' ''b'') ''b'' ''bc''"

definition str_pair :: "string Graph" where
  "str_pair = add_edge [] ''ab'' ''ba''"

section \<open>Sorting and hashing do not raise on non-empty labels\<close>

lemma insort_lt_total:
  assumes "\<forall>y\<in>set ys. \<exists>b. lt y x = Inr b"
  shows "\<exists>zs. insort_lt lt x ys = Inr zs \<and> set zs = insert x (set ys) \<and> length zs = Suc (length ys)"
  using assms
proof (induction ys)
  case Nil
  then show ?case by simp
next
  case (Cons y ys)
  then obtain b where b: "lt y x = Inr b" by auto
  from Cons obtain zs where zs: "insort_lt lt x ys = Inr zs" "set zs = insert x (set ys)"
    "length zs = Suc (length ys)" by auto
  show ?case using b zs by (cases b) auto
qed

lemma py_sorted_total:
  assumes "\<forall>x\<in>set xs. \<forall>y\<in>set xs. \<exists>b. lt x y = Inr b"
  shows "\<exists>ys. py_sorted lt xs = Inr ys \<and> set ys = set xs \<and> length ys = length xs"
  using assms
proof (induction xs)
  case Nil
  then show ?case by simp
next
  case (Cons x xs)
  then obtain ys where ys: "py_sorted lt xs = Inr ys" "set ys = set xs" "length ys = length xs"
    by auto
  from Cons.prems ys(2) have "\<forall>y\<in>set ys. \<exists>b. lt y x = Inr b" by auto
  from insort_lt_total[of ys lt x, OF this] ys show ?case by auto
qed

lemma fset_lt_total: "x \<noteq> {} \<Longrightarrow> y \<noteq> {} \<Longrightarrow> \<exists>b. fset_lt x y = Inr b"
  by (auto simp: fset_lt_def)

lemma tuple_lt_total:
  "fst p \<noteq> {} \<Longrightarrow> snd p \<noteq> {} \<Longrightarrow> fst q \<noteq> {} \<Longrightarrow> snd q \<noteq> {} \<Longrightarrow> \<exists>b. tuple_lt p q = Inr b"
  by (auto simp: tuple_lt_def fset_lt_total)

lemma sorted_edges_total:
  assumes "\<forall>e\<in>set es. fst e \<noteq> {} \<and> snd e \<noteq> {}"
  shows "\<exists>ts. sorted_edges es = Inr ts \<and> (\<forall>t\<in>set ts. fst t \<noteq> {} \<and> snd t \<noteq> {})"
  using assms
proof (induction es)
  case Nil
  then show ?case by simp
next
  case (Cons e es)
  then obtain ts where ts: "sorted_edges es = Inr ts" "\<forall>t\<in>set ts. fst t \<noteq> {} \<and> snd t \<noteq> {}"
    by auto
  from Cons.prems have ne: "fst e \<noteq> {}" "snd e \<noteq> {}" by auto
  then have "\<forall>x\<in>set [fst e, snd e]. \<forall>y\<in>set [fst e, snd e]. \<exists>b. fset_lt x y = Inr b"
    by (auto simp: fset_lt_total)
  from py_sorted_total[OF this] obtain st where st: "py_sorted fset_lt [fst e, snd e] = Inr st"
    by auto
  from py_sorted_pair[OF st] have "st = [fst e, snd e] \<or> st = [snd e, fst e]" .
  with st ts ne show ?case by (auto simp del: py_sorted.simps)
qed

text \<open>No edge of the node has an empty label at either end.\<close>

definition labels_ok :: "'a SearchSpaceNode \<Rightarrow> bool" where
  "labels_ok nd = (\<forall>e\<in>set (edges nd). fst e \<noteq> {} \<and> snd e \<noteq> {})"

lemma node_hash_total:
  assumes "labels_ok nd"
  shows "\<exists>h. node_hash nd = Inr h"
proof -
  from sorted_edges_total[of "edges nd"] assms obtain ts where ts: "sorted_edges (edges nd) = Inr ts"
    "\<forall>t\<in>set ts. fst t \<noteq> {} \<and> snd t \<noteq> {}" by (auto simp: labels_ok_def)
  then have "\<forall>x\<in>set ts. \<forall>y\<in>set ts. \<exists>b. tuple_lt x y = Inr b"
    by (auto simp: tuple_lt_total)
  from py_sorted_total[OF this] ts(1) show ?thesis by (auto simp: node_hash_def)
qed

lemma init_edges_id_total:
  "\<exists>G'. init_edges id_lt fr es G = Inr G'"
proof (induction es arbitrary: G)
  case Nil
  then show ?case by simp
next
  case (Cons e es)
  have "\<exists>st. py_sorted id_lt [fst e, snd e] = Inr st"
    by (simp add: id_lt_def)
  then obtain st where "py_sorted id_lt [fst e, snd e] = Inr st" by auto
  with Cons[of "add_edge G (fr (st ! 0)) (fr (st ! 1))"] show ?case
    by (auto simp del: py_sorted.simps)
qed

lemma SearchSpaceNode_init_id_total:
  "\<exists>nd. SearchSpaceNode_init id_lt fr g = Inr nd"
  using init_edges_id_total[of fr "edges g" "[]"] by (auto simp: SearchSpaceNode_init_def)

lemma root_labels_ok:
  assumes "SearchSpaceNode_init lt freeze_id g = Inr nd"
  shows "labels_ok nd"
proof -
  have "set (edges nd) \<subseteq> symcl (map_prod freeze_id freeze_id ` set (edges g))"
    using edges_subset[of nd] SearchSpaceNode_init_props(2)[OF assms] by simp
  then show ?thesis by (fastforce simp: labels_ok_def symcl_def freeze_id_def)
qed

lemma SearchSpaceLevel_init_graph:
  assumes "order g \<noteq> 0"
  shows "\<exists>nd. SearchSpaceNode_init id_lt freeze_id g = Inr nd \<and>
     SearchSpaceLevel_init (Some g) None =
       Inr \<lparr>l_nodes = Some [nd], l_level = 0, l_num_partitions = None, l_next = False, l_previous = False\<rparr>"
proof -
  from SearchSpaceNode_init_id_total obtain nd where nd: "SearchSpaceNode_init id_lt freeze_id g = Inr nd"
    by blast
  from node_hash_total[OF root_labels_ok[OF nd]] obtain h where "node_hash nd = Inr h" by auto
  with nd assms show ?thesis
    by (auto simp: SearchSpaceLevel_init_def truthy_def set_add_def)
qed


section \<open>The states of a level\<close>

text \<open>
  The two states of a level: it holds its nodes and no recorded count, or it is
  compressed and holds the count.
\<close>

definition level_ok :: "'a SearchSpaceLevel \<Rightarrow> bool" where
  "level_ok l = (case l_nodes l of Some ns \<Rightarrow> l_num_partitions l = None | None \<Rightarrow> l_num_partitions l \<noteq> None)"

lemma level_ok_init: "SearchSpaceLevel_init graph previous = Inr l \<Longrightarrow> level_ok l"
  by (auto simp: SearchSpaceLevel_init_def level_ok_def split: if_splits sum.splits)

lemma level_ok_compress: "level_ok l \<Longrightarrow> level_ok (compress l)"
  by (auto simp: level_ok_def compress_def split: option.splits)

lemma level_ok_add_node: "level_add_node l nd = Inr l' \<Longrightarrow> level_ok l \<Longrightarrow> level_ok l'"
  by (auto simp: level_add_node_def level_ok_def split: option.splits sum.splits)

lemma level_ok_add_children: "add_children cs l = Inr l' \<Longrightarrow> level_ok l \<Longrightarrow> level_ok l'"
  by (induction cs l arbitrary: l' rule: add_children.induct)
     (auto split: sum.splits dest: level_ok_add_node)

lemma level_ok_expand_nodes: "expand_nodes ns l = Inr l' \<Longrightarrow> level_ok l \<Longrightarrow> level_ok l'"
  by (induction ns l arbitrary: l' rule: expand_nodes.induct)
     (auto split: sum.splits dest: level_ok_add_children)

lemma level_ok_expand:
  assumes "level_expand l = (r, l')" and "level_ok l"
  shows "level_ok l'" and "r = Inr nxt \<Longrightarrow> level_ok nxt"
proof -
  from assms show "level_ok l'"
    by (auto simp: level_expand_def level_ok_def split: if_splits sum.splits option.splits)
  assume "r = Inr nxt"
  with assms(1) obtain l0 ns where "SearchSpaceLevel_init None (Some l) = Inr l0"
    "l_nodes l = Some ns" "expand_nodes ns l0 = Inr nxt"
    by (auto simp: level_expand_def split: if_splits sum.splits option.splits)
  then show "level_ok nxt"
    using level_ok_init level_ok_expand_nodes by blast
qed

lemma build_loop_Nil: "build_loop c [] = (Inl IndexError, [])"
  by (simp add: build_loop.simps[of c "[]"])

lemma build_loop_error:
  "ls \<noteq> [] \<Longrightarrow> num_partitions (last ls) = Inl e \<Longrightarrow> build_loop c ls = (Inl e, ls)"
  by (simp add: build_loop.simps[of c ls])

lemma build_loop_stop:
  "ls \<noteq> [] \<Longrightarrow> num_partitions (last ls) = Inr k \<Longrightarrow> \<not> 1 < k \<Longrightarrow> build_loop c ls = (Inr (), ls)"
  by (simp add: build_loop.simps[of c ls])

lemma build_loop_expand_error:
  "ls \<noteq> [] \<Longrightarrow> num_partitions (last ls) = Inr k \<Longrightarrow> 1 < k \<Longrightarrow>
   level_expand (last ls) = (Inl e, y) \<Longrightarrow> build_loop c ls = (Inl e, butlast ls @ [y])"
  by (simp add: build_loop.simps[of c ls])

lemma build_loop_step:
  "ls \<noteq> [] \<Longrightarrow> num_partitions (last ls) = Inr k \<Longrightarrow> 1 < k \<Longrightarrow>
   level_expand (last ls) = (Inr nxt, y) \<Longrightarrow>
   build_loop c ls = build_loop c (butlast ls @ [if c then compress y else y, nxt])"
  by (simp add: build_loop.simps[of c ls])

lemma build_loop_invariant:
  assumes "build_loop c ls = (r, ls')" and "P c ls"
    and step: "\<And>c ls k nxt y. ls \<noteq> [] \<Longrightarrow> P c ls \<Longrightarrow> num_partitions (last ls) = Inr k \<Longrightarrow> 1 < k \<Longrightarrow>
       level_expand (last ls) = (Inr nxt, y) \<Longrightarrow> P c (butlast ls @ [if c then compress y else y, nxt])"
    and err: "\<And>c ls k e y. ls \<noteq> [] \<Longrightarrow> P c ls \<Longrightarrow> num_partitions (last ls) = Inr k \<Longrightarrow> 1 < k \<Longrightarrow>
       level_expand (last ls) = (Inl e, y) \<Longrightarrow> P c (butlast ls @ [y])"
  shows "P c ls'"
  using assms(1,2)
proof (induction c ls arbitrary: r ls' rule: build_loop.induct)
  case (1 c ls)
  show ?case
  proof (cases "ls = []")
    case True
    with "1.prems" show ?thesis by (simp add: build_loop_Nil)
  next
    case ne: False
    show ?thesis
    proof (cases "num_partitions (last ls)")
      case (Inl e)
      with ne "1.prems" show ?thesis by (simp add: build_loop_error)
    next
      case k: (Inr k)
      show ?thesis
      proof (cases "k > 1")
        case False
        with ne k "1.prems" show ?thesis by (simp add: build_loop_stop)
      next
        case True
        obtain x y where xy: "level_expand (last ls) = (x, y)" by (cases "level_expand (last ls)")
        show ?thesis
        proof (cases x)
          case (Inl e)
          with ne k True xy "1.prems"(1) have "ls' = butlast ls @ [y]"
            by (simp add: build_loop_expand_error)
          moreover from xy Inl have "level_expand (last ls) = (Inl e, y)" by simp
          from err[OF ne "1.prems"(2) k True this] have "P c (butlast ls @ [y])" .
          ultimately show ?thesis by simp
        next
          case (Inr nxt)
          with ne k True xy "1.prems"(1)
          have rec: "build_loop c (butlast ls @ [if c then compress y else y, nxt]) = (r, ls')"
            by (simp add: build_loop_step)
          from xy Inr have "level_expand (last ls) = (Inr nxt, y)" by simp
          from step[OF ne "1.prems"(2) k True this]
          have "P c (butlast ls @ [if c then compress y else y, nxt])" .
          from "1.IH"[OF ne k True xy[symmetric] Inr rec this] show ?thesis .
        qed
      qed
    qed
  qed
qed

lemma build_loop_length:
  assumes "build_loop c ls = (r, ls')"
  shows "length ls \<le> length ls'"
  by (rule build_loop_invariant[OF assms, where P = "\<lambda>c xs. length ls \<le> length xs"]) auto

lemma build_loop_ok:
  assumes "build_loop c ls = (r, ls')" and "\<forall>l\<in>set ls. level_ok l"
  shows "\<forall>l\<in>set ls'. level_ok l"
proof (rule build_loop_invariant[OF assms(1), where P = "\<lambda>c xs. \<forall>l\<in>set xs. level_ok l"])
  show "\<forall>l\<in>set ls. level_ok l" by (rule assms(2))
next
  fix c and ls :: "'a SearchSpaceLevel list" and k nxt y
  assume ne: "ls \<noteq> []" and ok: "\<forall>l\<in>set ls. level_ok l"
    and ex: "level_expand (last ls) = (Inr nxt, y)"
  from ne ok have "level_ok (last ls)" by simp
  from level_ok_expand[OF ex this] ok
  show "\<forall>l\<in>set (butlast ls @ [if c then compress y else y, nxt]). level_ok l"
    by (auto simp: level_ok_compress dest: in_set_butlastD)
next
  fix c and ls :: "'a SearchSpaceLevel list" and k e y
  assume ne: "ls \<noteq> []" and ok: "\<forall>l\<in>set ls. level_ok l"
    and ex: "level_expand (last ls) = (Inl e, y)"
  from ne ok have "level_ok (last ls)" by simp
  from level_ok_expand(1)[OF ex this] ok
  show "\<forall>l\<in>set (butlast ls @ [y]). level_ok l"
    by (auto dest: in_set_butlastD)
qed

lemma build_levels_ok:
  assumes "build sp = (Inr ls, sp')"
  shows "\<forall>l\<in>set ls. level_ok l"
proof -
  from assms obtain l0 l1 l0' u ls0 where
    l0: "SearchSpaceLevel_init (Some (s_graph sp)) None = Inr l0"
    and ex: "level_expand l0 = (Inr l1, l0')"
    and lp: "build_loop (s_compress sp) [if s_compress sp then compress l0' else l0', l1] = (Inr u, ls0)"
    and ls: "ls = (if s_compress sp then butlast ls0 @ [compress (last ls0)] else ls0)"
    by (auto simp: build_def Let_def split: sum.splits prod.splits)
  have ok0: "level_ok l0" by (rule level_ok_init[OF l0])
  from level_ok_expand[OF ex ok0] have "level_ok l0'" "level_ok l1" by auto
  then have "\<forall>l\<in>set [if s_compress sp then compress l0' else l0', l1]. level_ok l"
    by (auto simp: level_ok_compress)
  from build_loop_ok[OF lp this] have a: "\<forall>l\<in>set ls0. level_ok l" .
  have ne: "ls0 \<noteq> []" using build_loop_length[OF lp] by auto
  show ?thesis
  proof (cases "s_compress sp")
    case True
    with ls a ne show ?thesis by (auto simp: level_ok_compress dest: in_set_butlastD)
  next
    case False
    with ls a show ?thesis by simp
  qed
qed


section \<open>The order of the labels is the lexicographic order of their sorted members\<close>

lemma lt_loop_lexordp: "lt_loop xs ys = ord_class.lexordp xs ys"
  by (induction xs ys rule: lt_loop.induct) auto

lemma sorted_list_of_set_Min:
  assumes "finite x" and "x \<noteq> {}"
  shows "sorted_list_of_set x = Min x # sorted_list_of_set (x - {Min x})"
  using sorted_list_of_set_nonempty[OF assms] .

lemma fset_lt_unfold:
  assumes "x \<noteq> {}" "y \<noteq> {}" "a = Min x" "b = Min y"
  shows "fset_lt x y =
     (if a < b then Inr True else if b < a then Inr False
      else Inr (lt_loop (sorted_list_of_set x) (sorted_list_of_set y)))"
  using assms(1,2) unfolding fset_lt_def assms(3,4) by (simp del: Min_less_iff Min_gr_iff)

lemma fset_lt_lexordp:
  assumes "finite x" "x \<noteq> {}" "finite y" "y \<noteq> {}"
  shows "fset_lt x y = Inr (ord_class.lexordp (sorted_list_of_set x) (sorted_list_of_set y))"
proof -
  define a where "a = Min x"
  define b where "b = Min y"
  have sx: "sorted_list_of_set x = a # sorted_list_of_set (x - {a})"
    unfolding a_def by (rule sorted_list_of_set_Min[OF assms(1,2)])
  have sy: "sorted_list_of_set y = b # sorted_list_of_set (y - {b})"
    unfolding b_def by (rule sorted_list_of_set_Min[OF assms(3,4)])
  note u = fset_lt_unfold[OF assms(2,4) a_def b_def]
  consider "a < b" | "b < a" | "a = b" by fastforce
  then show ?thesis
  proof cases
    case 1
    then have "ord_class.lexordp (sorted_list_of_set x) (sorted_list_of_set y)"
      by (subst sx, subst sy) simp
    with 1 u show ?thesis by simp
  next
    case 2
    then have "\<not> ord_class.lexordp (sorted_list_of_set x) (sorted_list_of_set y)"
      by (subst sx, subst sy) simp
    with 2 u show ?thesis by simp
  next
    case 3
    with u show ?thesis by (simp add: lt_loop_lexordp)
  qed
qed

lemma fset_lt_Min:
  assumes "x \<noteq> {}" "y \<noteq> {}"
  shows "Min x < Min y \<longrightarrow> fset_lt x y = Inr True"
    and "Min y < Min x \<longrightarrow> fset_lt x y = Inr False"
  using fset_lt_unfold[OF assms refl refl] by (auto simp del: Min_less_iff Min_gr_iff)


section \<open>Well-formed graphs and their edges\<close>

text \<open>
  The invariant of the library's graphs: no node is listed twice, no neighbour is listed
  twice, every neighbour is a node, and adjacency is symmetric.  It holds of the empty
  graph and is kept by \<open>add_node\<close> and \<open>add_edge\<close>.
\<close>

definition wf_graph :: "'v Graph \<Rightarrow> bool" where
  "wf_graph g = (distinct (map fst g) \<and> (\<forall>e\<in>set g. distinct (snd e)) \<and>
     Field (grel g) \<subseteq> gkeys g \<and> sym (grel g))"

lemma wf_graph_Nil [simp]: "wf_graph []"
  by (simp add: wf_graph_def sym_def)

lemma nbrs_distinct_add_node:
  "\<forall>e\<in>set g. distinct (snd e) \<Longrightarrow> \<forall>e\<in>set (add_node g n). distinct (snd e)"
  by (auto simp: add_node_def)

lemma nbrs_distinct_adj_set:
  "\<forall>e\<in>set g. distinct (snd e) \<Longrightarrow> \<forall>e\<in>set (adj_set g u v). distinct (snd e)"
  by (induction g u v rule: adj_set.induct) auto

lemma wf_graph_add_node: "wf_graph g \<Longrightarrow> wf_graph (add_node g n)"
  using nbrs_distinct_add_node[of g n]
  by (simp add: wf_graph_def distinct_add_node) (auto simp: Field_def)

lemma wf_graph_add_edge:
  assumes "wf_graph g"
  shows "wf_graph (add_edge g u v)"
proof -
  have "\<forall>e\<in>set (add_edge g u v). distinct (snd e)"
    using assms unfolding add_edge_def wf_graph_def
    by (intro nbrs_distinct_adj_set nbrs_distinct_add_node) simp
  moreover have "sym (grel (add_edge g u v))"
    using assms by (auto simp: wf_graph_def sym_def)
  moreover have "Field (grel (add_edge g u v)) \<subseteq> gkeys (add_edge g u v)"
    using assms by (auto simp: wf_graph_def Field_def)
  ultimately show ?thesis using assms by (simp add: wf_graph_def distinct_add_edge)
qed

lemma wf_graph_closed: "wf_graph g \<Longrightarrow> closed_graph g"
  by (simp add: wf_graph_def closed_graph_def)

text \<open>\<open>v\<close> stands before \<open>n\<close> in the list of nodes.\<close>

definition before :: "'v list \<Rightarrow> 'v \<Rightarrow> 'v \<Rightarrow> bool" where
  "before ks v n = (v \<in> set (takeWhile (\<lambda>k. k \<noteq> n) ks))"

lemma before_Nil [simp]: "\<not> before [] v n"
  by (simp add: before_def)

lemma before_Cons: "before (k # ks) v n = (k \<noteq> n \<and> (v = k \<or> before ks v n))"
  by (auto simp: before_def)

lemma before_in: "before ks v n \<Longrightarrow> v \<in> set ks"
  by (auto simp: before_def dest: set_takeWhileD)

lemma before_neq: "before ks v n \<Longrightarrow> v \<noteq> n"
  by (auto simp: before_def dest: set_takeWhileD)

lemma before_total: "v \<in> set ks \<Longrightarrow> n \<in> set ks \<Longrightarrow> v \<noteq> n \<Longrightarrow> before ks v n \<or> before ks n v"
  by (induction ks) (auto simp: before_Cons)

lemma before_asym: "distinct ks \<Longrightarrow> before ks v n \<Longrightarrow> \<not> before ks n v"
  by (induction ks) (auto simp: before_Cons dest: before_in)

lemma set_edges_seen:
  assumes "distinct (map fst g)"
  shows "set (edges_seen seen g) =
     {(n, v). (n, v) \<in> grel g \<and> v \<notin> set seen \<and> \<not> before (map fst g) v n}"
  using assms
proof (induction seen g rule: edges_seen.induct)
  case (1 seen)
  then show ?case by simp
next
  case (2 seen n nbrs g)
  then have IH: "set (edges_seen (n # seen) g) =
     {(m, v). (m, v) \<in> grel g \<and> v \<notin> set (n # seen) \<and> \<not> before (map fst g) v m}"
    and n: "n \<notin> fst ` set g" by auto
  have dom: "\<And>m v. (m, v) \<in> grel g \<Longrightarrow> m \<noteq> n"
    using n by (force simp: grel_def)
  show ?case
    unfolding edges_seen.simps set_append IH
    by (auto simp: grel_Cons before_Cons dest: dom)
qed

lemma set_edges:
  "distinct (map fst g) \<Longrightarrow>
   set (edges g) = {(n, v). (n, v) \<in> grel g \<and> \<not> before (map fst g) v n}"
  by (simp add: edges_def set_edges_seen)

lemma edges_seen_fst: "(n, v) \<in> set (edges_seen seen g) \<Longrightarrow> n \<in> fst ` set g"
  by (induction seen g rule: edges_seen.induct) (auto split: if_splits)

lemma distinct_edges_seen:
  "distinct (map fst g) \<Longrightarrow> \<forall>e\<in>set g. distinct (snd e) \<Longrightarrow> distinct (edges_seen seen g)"
proof (induction seen g rule: edges_seen.induct)
  case (1 seen)
  then show ?case by simp
next
  case (2 seen n nbrs g)
  then show ?case
    by (auto simp: distinct_map inj_on_def dest: edges_seen_fst intro!: distinct_filter)
qed

lemma distinct_edges: "wf_graph g \<Longrightarrow> distinct (edges g)"
  by (simp add: edges_def distinct_edges_seen wf_graph_def)

lemma grel_symcl_edges:
  assumes "wf_graph g"
  shows "grel g = symcl (set (edges g))"
proof -
  from assms have d: "distinct (map fst g)" and f: "Field (grel g) \<subseteq> gkeys g" and s: "sym (grel g)"
    by (auto simp: wf_graph_def)
  note se = set_edges[OF d]
  show ?thesis
  proof (intro equalityI subrelI)
    fix u v assume uv: "(u, v) \<in> grel g"
    with s have vu: "(v, u) \<in> grel g" by (auto dest: symD)
    from uv f have k: "u \<in> set (map fst g)" "v \<in> set (map fst g)"
      by (auto simp: Field_def gkeys_def)
    show "(u, v) \<in> symcl (set (edges g))"
    proof (cases "before (map fst g) v u")
      case False
      with uv show ?thesis by (simp add: se symcl_def)
    next
      case True
      from before_asym[OF d True] vu show ?thesis by (simp add: se symcl_def)
    qed
  next
    fix u v assume "(u, v) \<in> symcl (set (edges g))"
    with s show "(u, v) \<in> grel g" by (auto simp: se symcl_def dest: symD)
  qed
qed

lemma edges_no_reverse:
  assumes "wf_graph g" and "(u, v) \<in> set (edges g)" and "u \<noteq> v"
  shows "(v, u) \<notin> set (edges g)"
proof -
  from assms(1) have d: "distinct (map fst g)" and f: "Field (grel g) \<subseteq> gkeys g"
    by (auto simp: wf_graph_def)
  from assms(2) have uv: "(u, v) \<in> grel g" "\<not> before (map fst g) v u"
    by (auto simp: set_edges[OF d])
  with f have "u \<in> set (map fst g)" "v \<in> set (map fst g)"
    by (auto simp: Field_def gkeys_def)
  from before_total[OF this assms(3)] uv(2) have "before (map fst g) u v" by simp
  then show ?thesis by (simp add: set_edges[OF d])
qed

lemma finite_grel [simp]: "finite (grel g)"
proof (induction g)
  case Nil
  then show ?case by simp
next
  case (Cons e g)
  have "{(fst e, nbr) |nbr. nbr \<in> set (snd e)} = Pair (fst e) ` set (snd e)" by auto
  then have "finite {(fst e, nbr) |nbr. nbr \<in> set (snd e)}" by simp
  with Cons show ?case by (cases e) (simp add: grel_Cons)
qed

lemma grel_fst: "(m, v) \<in> grel g \<Longrightarrow> m \<in> fst ` set g"
  by (force simp: grel_def)

lemma degree_sum:
  assumes "distinct (map fst g)" and "\<forall>e\<in>set g. distinct (snd e)"
  shows "(\<Sum>(n, nbrs)\<leftarrow>g. length nbrs + (if n \<in> set nbrs then 1 else 0)) =
     card (grel g) + card {n. (n, n) \<in> grel g}"
  using assms
proof (induction g)
  case Nil
  then show ?case by simp
next
  case (Cons e g)
  obtain n nbrs where e: "e = (n, nbrs)" by (cases e)
  from Cons.prems e have n: "n \<notin> fst ` set g" and dn: "distinct nbrs" by auto
  let ?A = "Pair n ` set nbrs"
  have A: "{(n, nbr) |nbr. nbr \<in> set nbrs} = ?A" by auto
  have disj: "?A \<inter> grel g = {}" using n by (auto dest: grel_fst)
  have cA: "card ?A = length nbrs"
    using dn by (simp add: card_image inj_on_def distinct_card)
  have c1: "card (grel (e # g)) = length nbrs + card (grel g)"
    unfolding e grel_Cons A using disj cA by (simp add: card_Un_disjoint)
  have fl: "finite {m. (m, m) \<in> grel g}"
  proof (rule finite_subset)
    show "{m. (m, m) \<in> grel g} \<subseteq> fst ` grel g" by force
  qed simp
  have loops: "{m. (m, m) \<in> grel (e # g)} = (if n \<in> set nbrs then {n} else {}) \<union> {m. (m, m) \<in> grel g}"
    unfolding e grel_Cons by auto
  have nl: "n \<notin> {m. (m, m) \<in> grel g}" using n by (auto dest: grel_fst)
  have c2: "card {m. (m, m) \<in> grel (e # g)} = (if n \<in> set nbrs then 1 else 0) + card {m. (m, m) \<in> grel g}"
    unfolding loops using fl nl by simp
  from Cons show ?case unfolding c1 c2 by (simp add: e)
qed

lemma number_of_edges_length:
  assumes "wf_graph g"
  shows "number_of_edges g = length (edges g)"
proof -
  let ?E = "set (edges g)"
  from assms have d: "distinct (map fst g)" "\<forall>e\<in>set g. distinct (snd e)"
    by (auto simp: wf_graph_def)
  have g: "grel g = ?E \<union> ?E\<inverse>" using grel_symcl_edges[OF assms] by (simp add: symcl_def)
  have int: "?E \<inter> ?E\<inverse> = ?E \<inter> Id"
    using edges_no_reverse[OF assms] by auto
  have loops: "{n. (n, n) \<in> grel g} = fst ` (?E \<inter> Id)"
    unfolding g by force
  have "inj_on fst (?E \<inter> Id)" by (auto simp: inj_on_def)
  then have cl: "card {n. (n, n) \<in> grel g} = card (?E \<inter> Id)"
    unfolding loops by (rule card_image)
  have "card (?E \<union> ?E\<inverse>) + card (?E \<inter> ?E\<inverse>) = card ?E + card (?E\<inverse>)"
    using card_Un_Int[of ?E "?E\<inverse>"] by simp
  then have "card (grel g) + card {n. (n, n) \<in> grel g} = 2 * card ?E"
    unfolding g[symmetric] cl int by simp
  moreover have "card ?E = length (edges g)"
    using distinct_edges[OF assms] by (simp add: distinct_card)
  ultimately show ?thesis
    unfolding number_of_edges_def degree_sum[OF d] by simp
qed

text \<open>The edge set: the unordered pairs that the iteration over the edges yields.\<close>

definition edge_set :: "'v Graph \<Rightarrow> 'v set set" where
  "edge_set g = (\<lambda>e. {fst e, snd e}) ` set (edges g)"

lemma edge_set_grel:
  assumes "wf_graph g"
  shows "({u, v} \<in> edge_set g) = ((u, v) \<in> grel g)"
  unfolding grel_symcl_edges[OF assms] edge_set_def symcl_def
  by (auto simp: doubleton_eq_iff image_iff) force+

lemma card_edge_set:
  assumes "wf_graph g"
  shows "card (edge_set g) = length (edges g)"
proof -
  have "inj_on (\<lambda>e. {fst e, snd e}) (set (edges g))"
  proof (rule inj_onI)
    fix e f assume e: "e \<in> set (edges g)" and f: "f \<in> set (edges g)"
      and eq: "{fst e, snd e} = {fst f, snd f}"
    show "e = f"
    proof (cases "fst e = fst f")
      case True
      with eq show ?thesis by (auto simp: doubleton_eq_iff prod_eq_iff)
    next
      case False
      with eq have r: "fst e = snd f" "snd e = fst f" by (auto simp: doubleton_eq_iff)
      with False have ne: "fst f \<noteq> snd f" by simp
      from r have "e = (snd f, fst f)" by (simp add: prod_eq_iff)
      with e have "(snd f, fst f) \<in> set (edges g)" by simp
      moreover from f have "(fst f, snd f) \<in> set (edges g)" by simp
      ultimately show ?thesis using edges_no_reverse[OF assms _ ne] by blast
    qed
  qed
  then have "card (edge_set g) = card (set (edges g))"
    unfolding edge_set_def by (rule card_image)
  with distinct_edges[OF assms] show ?thesis by (simp add: distinct_card)
qed

lemma has_edge_grel:
  assumes "distinct (map fst g)"
  shows "has_edge g e = (e \<in> grel g)"
proof -
  have "\<And>nbrs. (map_of g (fst e) = Some nbrs) = ((fst e, nbrs) \<in> set g)"
    using assms by (simp add: map_of_eq_Some_iff)
  moreover have "\<And>x y. (fst e, x) \<in> set g \<Longrightarrow> (fst e, y) \<in> set g \<Longrightarrow> x = y"
    using assms by (rule eq_key_imp_eq_value)
  ultimately show ?thesis
    by (cases e) (auto simp: has_edge_def grel_def split: option.splits)
qed

lemma node_eq_iff:
  assumes "wf_graph a" and "wf_graph b"
  shows "node_eq a b = (edge_set a = edge_set b)"
proof
  assume eq: "node_eq a b"
  from assms(2) have db: "distinct (map fst b)" by (simp add: wf_graph_def)
  from eq have len: "length (edges a) = length (edges b)"
    and sub: "\<forall>e\<in>set (edges a). e \<in> grel b"
    by (auto simp: node_eq_def edges_eq_def number_of_edges_length assms has_edge_grel[OF db] list_all_iff)
  have "edge_set a \<subseteq> edge_set b"
  proof
    fix x assume "x \<in> edge_set a"
    then obtain e where e: "e \<in> set (edges a)" "x = {fst e, snd e}" by (auto simp: edge_set_def)
    with sub have "(fst e, snd e) \<in> grel b" by simp
    with e show "x \<in> edge_set b" by (simp add: edge_set_grel[OF assms(2)])
  qed
  moreover have "card (edge_set a) = card (edge_set b)"
    using len by (simp add: card_edge_set assms)
  moreover have "finite (edge_set b)" by (simp add: edge_set_def)
  ultimately show "edge_set a = edge_set b" by (simp add: card_subset_eq)
next
  assume eq: "edge_set a = edge_set b"
  from assms(2) have db: "distinct (map fst b)" by (simp add: wf_graph_def)
  have len: "length (edges a) = length (edges b)"
    using eq card_edge_set[OF assms(1)] card_edge_set[OF assms(2)] by simp
  have "\<forall>e\<in>set (edges a). e \<in> grel b"
  proof
    fix e assume "e \<in> set (edges a)"
    then have "{fst e, snd e} \<in> edge_set a" by (auto simp: edge_set_def)
    with eq show "e \<in> grel b" using edge_set_grel[OF assms(2), of "fst e" "snd e"] by simp
  qed
  with len show "node_eq a b"
    by (simp add: node_eq_def edges_eq_def number_of_edges_length assms has_edge_grel[OF db] list_all_iff)
qed

section \<open>The hash is the sorted list of the sorted edges\<close>

text \<open>Every label of the node is a non-empty finite set.\<close>

definition labels_fin :: "'a SearchSpaceNode \<Rightarrow> bool" where
  "labels_fin nd = (\<forall>x\<in>gkeys nd. finite x \<and> x \<noteq> {})"

text \<open>
  The keys the comparisons amount to: a label is compared by the list of its sorted
  members, a pair of labels by the pair of these lists, both lexicographically.
  \<open>canon\<close> is \<open>tuple(sorted(e))\<close> for an edge of two such labels.
\<close>

definition label_key :: "'a::linorder fset \<Rightarrow> 'a list" where
  "label_key x = sorted_list_of_set x"

definition pair_key :: "'a::linorder fset \<times> 'a fset \<Rightarrow> 'a list \<times> 'a list" where
  "pair_key p = (label_key (fst p), label_key (snd p))"

definition canon :: "'a::linorder fset \<times> 'a fset \<Rightarrow> 'a fset \<times> 'a fset" where
  "canon e = (if label_key (snd e) < label_key (fst e) then (snd e, fst e) else e)"

lemma label_key_inject:
  "finite x \<Longrightarrow> finite y \<Longrightarrow> (label_key x = label_key y) = (x = y)"
  using sorted_list_of_set_inject[of x y] by (auto simp: label_key_def)

lemma fset_lt_key:
  assumes "finite x" "x \<noteq> {}" "finite y" "y \<noteq> {}"
  shows "fset_lt x y = Inr (label_key x < label_key y)"
  unfolding fset_lt_lexordp[OF assms] label_key_def list_less_def lexordp_conv_lexord ..

lemma insort_lt_key:
  assumes "\<forall>y\<in>set ys. lt y x = Inr (key y < key x)"
  shows "insort_lt lt x ys = Inr (insort_key key x ys)"
  using assms by (induction ys) (auto simp: not_less)

lemma py_sorted_key:
  fixes key :: "'v \<Rightarrow> 'k::linorder"
  assumes "\<forall>x\<in>set xs. \<forall>y\<in>set xs. lt x y = Inr (key x < key y)"
  shows "py_sorted lt xs = Inr (sort_key key xs)"
  using assms
proof (induction xs)
  case Nil
  then show ?case by simp
next
  case (Cons x xs)
  then have IH: "py_sorted lt xs = Inr (sort_key key xs)" by simp
  from Cons.prems have "\<forall>y\<in>set (sort_key key xs). lt y x = Inr (key y < key x)" by simp
  from insort_lt_key[of "sort_key key xs" lt x key, OF this] IH show ?case by simp
qed

lemma py_sorted_pair_key:
  assumes "finite u" "u \<noteq> {}" "finite v" "v \<noteq> {}"
  shows "py_sorted fset_lt [u, v] = Inr [fst (canon (u, v)), snd (canon (u, v))]"
proof -
  have "\<forall>x\<in>set [u, v]. \<forall>y\<in>set [u, v]. fset_lt x y = Inr (label_key x < label_key y)"
    using assms by (auto simp: fset_lt_key)
  from py_sorted_key[of "[u, v]" fset_lt label_key, OF this]
  show ?thesis by (auto simp: canon_def not_less)
qed

lemma sorted_edges_canon:
  assumes "\<forall>e\<in>set es. finite (fst e) \<and> fst e \<noteq> {} \<and> finite (snd e) \<and> snd e \<noteq> {}"
  shows "sorted_edges es = Inr (map canon es)"
  using assms
proof (induction es)
  case Nil
  then show ?case by simp
next
  case (Cons e es)
  then have IH: "sorted_edges es = Inr (map canon es)" by simp
  from Cons.prems have "py_sorted fset_lt [fst e, snd e] = Inr [fst (canon e), snd (canon e)]"
    using py_sorted_pair_key[of "fst e" "snd e"] by simp
  with IH show ?case by (simp del: py_sorted.simps)
qed

lemma tuple_lt_key:
  assumes "finite (fst p)" "fst p \<noteq> {}" "finite (snd p)" "snd p \<noteq> {}"
    and "finite (fst q)" "fst q \<noteq> {}" "finite (snd q)" "snd q \<noteq> {}"
  shows "tuple_lt p q = Inr (pair_key p < pair_key q)"
proof -
  have i1: "(label_key (fst p) = label_key (fst q)) = (fst p = fst q)"
    and i2: "(label_key (snd p) = label_key (snd q)) = (snd p = snd q)"
    using assms by (simp_all add: label_key_inject)
  show ?thesis
    unfolding tuple_lt_def pair_key_def
    using assms i1 i2 by (auto simp: fset_lt_key less_le)
qed

lemma canon_ends: "{fst (canon e), snd (canon e)} = {fst e, snd e}"
  by (auto simp: canon_def)

lemma canon_swap:
  assumes "finite u" "finite v"
  shows "canon (v, u) = canon (u, v)"
  using assms label_key_inject[of u v] by (auto simp: canon_def)

lemma canon_unordered:
  assumes "finite (fst e)" "finite (snd e)" "{fst e, snd e} = {fst f, snd f}"
  shows "canon e = canon f"
proof -
  from assms(3) consider "e = f" | "e = (snd f, fst f)"
    by (auto simp: doubleton_eq_iff prod_eq_iff)
  then show ?thesis
  proof cases
    case 1
    then show ?thesis by simp
  next
    case 2
    with assms(1,2) canon_swap[of "fst f" "snd f"] show ?thesis by simp
  qed
qed

lemma edges_ends_in_keys:
  assumes "wf_graph g" and "e \<in> set (edges g)"
  shows "fst e \<in> gkeys g" and "snd e \<in> gkeys g"
  using edges_endpoints_closed[OF wf_graph_closed[OF assms(1)]] assms(2) by auto

lemma node_hash_canon:
  assumes "wf_graph nd" and "labels_fin nd"
  shows "node_hash nd = Inr (sort_key pair_key (map canon (edges nd)))"
proof -
  have ok: "\<forall>e\<in>set (edges nd). finite (fst e) \<and> fst e \<noteq> {} \<and> finite (snd e) \<and> snd e \<noteq> {}"
    using edges_ends_in_keys[OF assms(1)] assms(2) by (auto simp: labels_fin_def)
  have okc: "\<forall>e\<in>set (map canon (edges nd)). finite (fst e) \<and> fst e \<noteq> {} \<and> finite (snd e) \<and> snd e \<noteq> {}"
    using ok by (auto simp: canon_def)
  have "\<forall>x\<in>set (map canon (edges nd)). \<forall>y\<in>set (map canon (edges nd)).
      tuple_lt x y = Inr (pair_key x < pair_key y)"
    using okc by (simp add: tuple_lt_key)
  from py_sorted_key[of "map canon (edges nd)" tuple_lt pair_key, OF this] sorted_edges_canon[OF ok]
  show ?thesis by (simp add: node_hash_def)
qed

lemma inj_on_ends:
  assumes "wf_graph g"
  shows "inj_on (\<lambda>e. {fst e, snd e}) (set (edges g))"
proof -
  have "card ((\<lambda>e. {fst e, snd e}) ` set (edges g)) = card (set (edges g))"
    using card_edge_set[OF assms] distinct_edges[OF assms]
    by (simp add: edge_set_def distinct_card)
  then show ?thesis by (simp add: eq_card_imp_inj_on)
qed

lemma sort_key_unique:
  fixes key :: "'v \<Rightarrow> 'k::linorder"
  assumes "distinct xs" "distinct ys" "set xs = set ys" "inj_on key (set xs)"
  shows "sort_key key xs = sort_key key ys"
proof -
  let ?a = "sort_key key xs" and ?b = "sort_key key ys"
  have "map key ?a = map key ?b"
  proof (rule sorted_distinct_set_unique)
    show "sorted (map key ?a)" "sorted (map key ?b)" by simp_all
    show "distinct (map key ?a)" using assms(1,4) by (simp add: distinct_map)
    show "distinct (map key ?b)" using assms(2,3,4) by (simp add: distinct_map)
    show "set (map key ?a) = set (map key ?b)" using assms(3) by simp
  qed
  moreover have "inj_on key (set ?a \<union> set ?b)" using assms(3,4) by simp
  ultimately show ?thesis using inj_on_map_eq_map[of key ?a ?b] by simp
qed

lemma node_hash_edge_set:
  assumes "wf_graph a" "labels_fin a" "wf_graph b" "labels_fin b" "edge_set a = edge_set b"
  shows "node_hash a = node_hash b"
proof -
  have fin: "finite (fst e) \<and> finite (snd e)"
    if "wf_graph g" "labels_fin g" "e \<in> set (edges g)" for g :: "'a SearchSpaceNode" and e
    using edges_ends_in_keys[OF that(1,3)] that(2) by (simp add: labels_fin_def)
  have sub: "canon ` set (edges g) \<subseteq> canon ` set (edges h)"
    if g: "wf_graph g" "labels_fin g" and eq: "edge_set g = edge_set h"
    for g h :: "'a SearchSpaceNode"
  proof
    fix x
    assume x: "x \<in> canon ` set (edges g)"
    then obtain e where e: "e \<in> set (edges g)" "x = canon e" by auto
    then have "{fst e, snd e} \<in> edge_set h" using eq by (auto simp: edge_set_def)
    then obtain f where f: "f \<in> set (edges h)" "{fst e, snd e} = {fst f, snd f}"
      by (auto simp: edge_set_def)
    from canon_unordered[OF _ _ f(2)] fin[OF g e(1)] have "canon e = canon f" by simp
    with e f show "x \<in> canon ` set (edges h)" by auto
  qed
  have inj: "inj_on canon (set (edges g))"
    if g: "wf_graph g" "labels_fin g" for g :: "'a SearchSpaceNode"
  proof (rule inj_onI)
    fix e f
    assume e: "e \<in> set (edges g)" and f: "f \<in> set (edges g)"
      and c: "canon e = canon f"
    from c have "{fst e, snd e} = {fst f, snd f}" using canon_ends[of e] canon_ends[of f] by simp
    with inj_on_ends[OF g(1)] e f show "e = f" by (auto dest: inj_onD)
  qed
  let ?xs = "map canon (edges a)" and ?ys = "map canon (edges b)"
  have s: "set ?xs = set ?ys"
    using sub[OF assms(1,2,5)] sub[OF assms(3,4) assms(5)[symmetric]] by auto
  have d: "distinct ?xs" "distinct ?ys"
    using inj[OF assms(1,2)] inj[OF assms(3,4)] distinct_edges[OF assms(1)] distinct_edges[OF assms(3)]
    by (simp_all add: distinct_map)
  have k: "inj_on pair_key (set ?xs)"
  proof (rule inj_onI)
    fix p q assume p: "p \<in> set ?xs" and q: "q \<in> set ?xs" and pq: "pair_key p = pair_key q"
    have "finite (fst x) \<and> finite (snd x)" if "x \<in> set ?xs" for x
    proof -
      from that obtain e where e: "e \<in> set (edges a)" "x = canon e" by auto
      from fin[OF assms(1,2) e(1)] e(2) show ?thesis by (simp add: canon_def)
    qed
    from this[OF p] this[OF q]
    have "finite (fst p)" "finite (snd p)" "finite (fst q)" "finite (snd q)" by simp_all
    with pq show "p = q" by (auto simp: pair_key_def label_key_inject prod_eq_iff)
  qed
  from sort_key_unique[OF d s k] show ?thesis
    by (simp add: node_hash_canon assms)
qed

lemma init_edges_wf:
  "init_edges lt fr es G = Inr G' \<Longrightarrow> wf_graph G \<Longrightarrow> wf_graph G'"
  by (induction lt fr es G arbitrary: G' rule: init_edges.induct)
     (auto split: sum.splits simp: wf_graph_add_edge simp del: py_sorted.simps)

lemma foldl_add_node_wf:
  "wf_graph G \<Longrightarrow> wf_graph (foldl (\<lambda>G node. add_node G (fr node)) G ns)"
  by (induction ns arbitrary: G) (auto simp: wf_graph_add_node)

lemma SearchSpaceNode_init_wf:
  assumes "SearchSpaceNode_init lt fr g = Inr nd"
  shows "wf_graph nd"
proof -
  from assms obtain G where G: "init_edges lt fr (edges g) [] = Inr G"
    and nd: "nd = foldl (\<lambda>G node. add_node G (fr node)) G (nodes g)"
    by (auto simp: SearchSpaceNode_init_def split: sum.splits)
  from init_edges_wf[OF G] have "wf_graph G" by simp
  then show ?thesis unfolding nd by (rule foldl_add_node_wf)
qed


section \<open>Partition nodes are quotients of the input graph\<close>

text \<open>What the inner loop of \<open>expand\<close> adds for an edge \<open>e\<close> other than the merged one.\<close>

definition merge_img :: "'v \<times> 'v \<Rightarrow> 'v \<Rightarrow> 'v \<times> 'v \<Rightarrow> 'v \<times> 'v" where
  "merge_img edge new_node e =
     (if fst e = fst edge \<or> fst e = snd edge then (new_node, snd e)
      else if snd e = fst edge \<or> snd e = snd edge then (fst e, new_node)
      else e)"

lemma merge_edges_props:
  "gkeys (merge_edges edge new es G) =
     gkeys G \<union> Field (merge_img edge new ` (set es - {edge})) \<and>
   grel (merge_edges edge new es G) =
     grel G \<union> symcl (merge_img edge new ` (set es - {edge})) \<and>
   (wf_graph G \<longrightarrow> wf_graph (merge_edges edge new es G))"
proof (induction edge new es G rule: merge_edges.induct)
  case (1 edge new_node G)
  then show ?case by (simp add: symcl_def)
next
  case (2 edge new_node e es G)
  show ?case
  proof (cases "edge = e")
    case True
    with 2 show ?thesis by simp
  next
    case False
    then have s: "set (e # es) - {edge} = insert e (set es - {edge})" by auto
    consider (a) "fst e = fst edge \<or> fst e = snd edge"
      | (b) "\<not> (fst e = fst edge \<or> fst e = snd edge)" "snd e = fst edge \<or> snd e = snd edge"
      | (c) "\<not> (fst e = fst edge \<or> fst e = snd edge)" "\<not> (snd e = fst edge \<or> snd e = snd edge)"
      by blast
    then show ?thesis
    proof cases
      case a
      with False "2.IH"(2) show ?thesis
        unfolding s by (auto simp: merge_img_def symcl_def Field_def wf_graph_add_edge)
    next
      case b
      with False "2.IH"(3) show ?thesis
        unfolding s by (auto simp: merge_img_def symcl_def Field_def wf_graph_add_edge)
    next
      case c
      with False "2.IH"(4) show ?thesis
        unfolding s by (cases e) (auto simp: merge_img_def symcl_def Field_def wf_graph_add_edge)
    qed
  qed
qed

text \<open>
  The merge, on labels and on partitions: the two merged labels go to their union, and
  the partition loses the two and gains the union.
\<close>

definition merge_map :: "'a set \<Rightarrow> 'a set \<Rightarrow> 'a set \<Rightarrow> 'a set" where
  "merge_map s t x = (if x = s \<or> x = t then s \<union> t else x)"

definition merge_part :: "'a set \<Rightarrow> 'a set \<Rightarrow> 'a set set \<Rightarrow> 'a set set" where
  "merge_part s t P = insert (s \<union> t) (P - {s, t})"

text \<open>
  The quotient of the edge relation by a partition: two different blocks are adjacent
  when some edge goes from the one to the other.
\<close>

definition qrel :: "('a \<times> 'a) set \<Rightarrow> 'a set set \<Rightarrow> ('a set \<times> 'a set) set" where
  "qrel E P = {(B, C). B \<in> P \<and> C \<in> P \<and> B \<noteq> C \<and> (\<exists>u\<in>B. \<exists>v\<in>C. (u, v) \<in> E)}"

text \<open>
  The input graphs of the claims: connected, and simple (a graph of the library
  without self-loops, as the graph6 reader produces).
\<close>

definition connected_graph :: "'v Graph \<Rightarrow> bool" where
  "connected_graph g = (\<forall>u\<in>gkeys g. \<forall>v\<in>gkeys g. (u, v) \<in> (grel g)\<^sup>*)"

definition simple_graph :: "'v Graph \<Rightarrow> bool" where
  "simple_graph g = (wf_graph g \<and> irrefl (grel g))"

lemma merge_img_map:
  assumes "wf_graph nd" and "irrefl (grel nd)" and st: "(s, t) \<in> set (edges nd)"
    and e: "e \<in> set (edges nd)" and ne: "e \<noteq> (s, t)"
  shows "merge_img (s, t) (s \<union> t) e = map_prod (merge_map s t) (merge_map s t) e"
proof -
  from st edges_subset[of nd] assms(2) have "s \<noteq> t" by (auto simp: irrefl_def)
  from edges_no_reverse[OF assms(1) st this] e have r: "e \<noteq> (t, s)" by auto
  obtain a b where ab: "e = (a, b)" by (cases e)
  from e edges_subset[of nd] have "(a, b) \<in> grel nd" unfolding ab by auto
  with assms(2) have l: "a \<noteq> b" by (auto simp: irrefl_def)
  from ne r l show ?thesis
    unfolding ab by (auto simp: merge_img_def merge_map_def)
qed

lemma symcl_edges_minus:
  assumes "wf_graph nd" and "irrefl (grel nd)" and st: "(s, t) \<in> set (edges nd)"
  shows "symcl (set (edges nd) - {(s, t)}) = grel nd - {(s, t), (t, s)}"
proof -
  from st edges_subset[of nd] assms(2) have "s \<noteq> t" by (auto simp: irrefl_def)
  from edges_no_reverse[OF assms(1) st this] have r: "(t, s) \<notin> set (edges nd)" .
  show ?thesis
    unfolding grel_symcl_edges[OF assms(1)] symcl_def using r by auto
qed

lemma symcl_map_prod: "symcl (map_prod f f ` R) = map_prod f f ` symcl R"
  by (auto simp: symcl_def)

lemma Field_symcl [simp]: "Field (symcl R) = Field R"
  by (auto simp: symcl_def Field_def)

lemma new_graph_props:
  assumes "wf_graph nd" and "irrefl (grel nd)" and st: "(s, t) \<in> set (edges nd)"
  defines "h \<equiv> merge_edges (s, t) (s \<union> t) (edges nd) (add_node [] (s \<union> t))"
  shows "grel h = map_prod (merge_map s t) (merge_map s t) ` (grel nd - {(s, t), (t, s)})"
    and "gkeys h = insert (s \<union> t) (Field (grel h))"
    and "wf_graph h"
proof -
  let ?f = "merge_map s t"
  have img: "merge_img (s, t) (s \<union> t) ` (set (edges nd) - {(s, t)}) =
      map_prod ?f ?f ` (set (edges nd) - {(s, t)})"
    by (rule image_cong[OF refl]) (auto intro!: merge_img_map[OF assms(1,2) st])
  note mp = merge_edges_props[of "(s, t)" "s \<union> t" "edges nd" "add_node [] (s \<union> t)"]
  have w0: "wf_graph (add_node [] (s \<union> t))" by (intro wf_graph_add_node wf_graph_Nil)
  from mp w0 show "wf_graph h" by (simp add: h_def)
  from mp have g: "grel h = symcl (map_prod ?f ?f ` (set (edges nd) - {(s, t)}))"
    by (simp add: h_def img)
  then show "grel h = map_prod ?f ?f ` (grel nd - {(s, t), (t, s)})"
    by (simp add: symcl_map_prod symcl_edges_minus[OF assms(1,2) st])
  from mp show "gkeys h = insert (s \<union> t) (Field (grel h))"
    unfolding g by (simp add: h_def img)
qed

lemma partition_on_block_eq:
  "partition_on V P \<Longrightarrow> B \<in> P \<Longrightarrow> C \<in> P \<Longrightarrow> u \<in> B \<Longrightarrow> u \<in> C \<Longrightarrow> B = C"
  by (auto simp: partition_on_def disjoint_def)

lemma merge_not_in:
  assumes "partition_on V P" "s \<in> P" "t \<in> P" "s \<noteq> t"
  shows "s \<union> t \<notin> P"
proof
  assume a: "s \<union> t \<in> P"
  from assms have "s \<noteq> {}" "t \<noteq> {}" by (auto simp: partition_on_def)
  then obtain u v where "u \<in> s" "v \<in> t" by auto
  with partition_on_block_eq[OF assms(1) a assms(2), of u] partition_on_block_eq[OF assms(1) a assms(3), of v]
  have "s \<union> t = s" "s \<union> t = t" by auto
  with assms(4) show False by simp
qed

lemma partition_on_merge:
  assumes "partition_on V P" "s \<in> P" "t \<in> P" "s \<noteq> t"
  shows "partition_on V (merge_part s t P)"
proof (rule partition_onI)
  from assms show "\<Union> (merge_part s t P) = V"
    by (auto simp: merge_part_def partition_on_def)
  from assms show "{} \<notin> merge_part s t P"
    by (auto simp: merge_part_def partition_on_def)
  fix p q assume "p \<in> merge_part s t P" "q \<in> merge_part s t P" "p \<noteq> q"
  with assms show "disjnt p q"
    by (auto simp: merge_part_def partition_on_def disjoint_def disjnt_def)
qed

lemma card_merge_part:
  assumes "partition_on V P" "finite P" "s \<in> P" "t \<in> P" "s \<noteq> t"
  shows "card (merge_part s t P) + 1 = card P"
proof -
  have "s \<union> t \<notin> P - {s, t}" using merge_not_in[OF assms(1,3,4,5)] by simp
  then have "card (merge_part s t P) = Suc (card (P - {s, t}))"
    using assms(2) by (simp add: merge_part_def)
  moreover have "card (P - {s, t}) = card P - 2"
    using assms(2-5) by (simp add: card_Diff_subset)
  moreover have "card P \<ge> 2"
  proof -
    have "card {s, t} \<le> card P" using assms(2-4) by (intro card_mono) auto
    with assms(5) show ?thesis by simp
  qed
  ultimately show ?thesis by simp
qed

lemma qrel_merge:
  assumes p: "partition_on V P" and st: "(s, t) \<in> qrel E P"
  shows "map_prod (merge_map s t) (merge_map s t) ` (qrel E P - {(s, t), (t, s)}) =
     qrel E (merge_part s t P)"
proof -
  let ?f = "merge_map s t"
  from st have sP: "s \<in> P" and tP: "t \<in> P" and ne: "s \<noteq> t" by (auto simp: qrel_def)
  note nin = merge_not_in[OF p sP tP ne]
  show ?thesis
  proof (intro equalityI subsetI)
    fix x assume "x \<in> map_prod ?f ?f ` (qrel E P - {(s, t), (t, s)})"
    then obtain B C where x: "x = (?f B, ?f C)" and q: "(B, C) \<in> qrel E P"
      and n: "(B, C) \<noteq> (s, t)" "(B, C) \<noteq> (t, s)" by auto
    from q obtain u v where BC: "B \<in> P" "C \<in> P" "B \<noteq> C" and uv: "u \<in> B" "v \<in> C" "(u, v) \<in> E"
      by (auto simp: qrel_def)
    have m: "?f B \<in> merge_part s t P" "?f C \<in> merge_part s t P"
      using BC by (auto simp: merge_map_def merge_part_def)
    have d: "?f B \<noteq> ?f C"
      using BC n nin by (auto simp: merge_map_def)
    have "u \<in> ?f B" "v \<in> ?f C" using uv by (auto simp: merge_map_def)
    with m d uv(3) show "x \<in> qrel E (merge_part s t P)"
      unfolding x qrel_def by blast
  next
    fix x assume "x \<in> qrel E (merge_part s t P)"
    then obtain B C u v where x: "x = (B, C)" and BC: "B \<in> merge_part s t P" "C \<in> merge_part s t P" "B \<noteq> C"
      and uv: "u \<in> B" "v \<in> C" "(u, v) \<in> E"
      by (auto simp: qrel_def)
    have pre: "\<exists>B0. B0 \<in> P \<and> w \<in> B0 \<and> ?f B0 = D" if "D \<in> merge_part s t P" "w \<in> D" for D w
      using that sP tP nin by (auto simp: merge_part_def merge_map_def)
    from pre[OF BC(1) uv(1)] obtain B0 where B0: "B0 \<in> P" "u \<in> B0" "?f B0 = B" by blast
    from pre[OF BC(2) uv(2)] obtain C0 where C0: "C0 \<in> P" "v \<in> C0" "?f C0 = C" by blast
    from BC(3) B0(3) C0(3) have ne0: "B0 \<noteq> C0" by auto
    from BC(3) B0(3) C0(3) have "\<not> (B0 \<in> {s, t} \<and> C0 \<in> {s, t})" by (auto simp: merge_map_def)
    then have "(B0, C0) \<noteq> (s, t)" "(B0, C0) \<noteq> (t, s)" by auto
    moreover have "(B0, C0) \<in> qrel E P" using B0 C0 ne0 uv(3) by (auto simp: qrel_def)
    ultimately show "x \<in> map_prod ?f ?f ` (qrel E P - {(s, t), (t, s)})"
      unfolding x using B0(3) C0(3) by force
  qed
qed

lemma quotient_path:
  assumes p: "partition_on V P" and f: "Field E \<subseteq> V" and uv: "(u, v) \<in> E\<^sup>*"
    and "B \<in> P" "u \<in> B" "C \<in> P" "v \<in> C"
  shows "(B, C) \<in> (qrel E P)\<^sup>*"
  using uv assms(4-7)
proof (induction arbitrary: C rule: rtrancl_induct)
  case base
  with partition_on_block_eq[OF p] have "B = C" by blast
  then show ?case by simp
next
  case (step w v)
  from step.hyps(2) f have "w \<in> V" by (auto simp: Field_def)
  with p obtain D where D: "D \<in> P" "w \<in> D" by (auto simp: partition_on_def)
  from step.IH[OF step.prems(1,2) D] have BD: "(B, D) \<in> (qrel E P)\<^sup>*" .
  show ?case
  proof (cases "D = C")
    case True
    with BD show ?thesis by simp
  next
    case False
    with D step.prems step.hyps(2) have "(D, C) \<in> qrel E P" by (auto simp: qrel_def)
    with BD show ?thesis by simp
  qed
qed

lemma quotient_connected:
  assumes p: "partition_on V P" and f: "Field E \<subseteq> V" and c: "\<forall>u\<in>V. \<forall>v\<in>V. (u, v) \<in> E\<^sup>*"
    and "B \<in> P" "C \<in> P"
  shows "(B, C) \<in> (qrel E P)\<^sup>*"
proof -
  from p assms(4,5) have "B \<noteq> {}" "C \<noteq> {}" "B \<subseteq> V" "C \<subseteq> V"
    by (auto simp: partition_on_def)
  then obtain u v where uv: "u \<in> B" "v \<in> C" "u \<in> V" "v \<in> V" by blast
  with c have "(u, v) \<in> E\<^sup>*" by simp
  from quotient_path[OF p f this assms(4) uv(1) assms(5) uv(2)] show ?thesis .
qed

lemma Field_qrel_subset: "Field (qrel E P) \<subseteq> P"
  by (auto simp: qrel_def Field_def)

lemma Field_qrel:
  assumes p: "partition_on V P" and f: "Field E \<subseteq> V" and c: "\<forall>u\<in>V. \<forall>v\<in>V. (u, v) \<in> E\<^sup>*"
    and two: "B \<in> P" "C \<in> P" "B \<noteq> C"
  shows "B \<in> Domain (qrel E P)"
proof -
  from quotient_connected[OF p f c two(1,2)] two(3) show ?thesis
    by (auto elim: converse_rtranclE)
qed

text \<open>
  A partition node of the graph \<open>g\<close>: its vertices are the blocks of a partition of
  the nodes of \<open>g\<close>, and its edges are the quotient of the edges of \<open>g\<close>.
\<close>

definition pnode :: "'a Graph \<Rightarrow> 'a SearchSpaceNode \<Rightarrow> bool" where
  "pnode g nd = (wf_graph nd \<and> partition_on (gkeys g) (gkeys nd) \<and>
     grel nd = qrel (grel g) (gkeys nd))"

lemma finite_gkeys [simp]: "finite (gkeys g)"
  by (simp add: gkeys_def)

lemma pnode_labels_fin: "pnode g nd \<Longrightarrow> labels_fin nd"
proof -
  assume a: "pnode g nd"
  then have p: "partition_on (gkeys g) (gkeys nd)" by (simp add: pnode_def)
  show ?thesis unfolding labels_fin_def
  proof
    fix x assume x: "x \<in> gkeys nd"
    with p have "x \<subseteq> gkeys g" "x \<noteq> {}" by (auto simp: partition_on_def)
    then show "finite x \<and> x \<noteq> {}" using finite_subset[of x "gkeys g"] by simp
  qed
qed

lemma root_pnode:
  assumes s: "simple_graph g" and i: "SearchSpaceNode_init id_lt freeze_id g = Inr nd"
  shows "pnode g nd" and "gkeys nd = (\<lambda>v. {v}) ` gkeys g"
proof -
  from s have w: "wf_graph g" and irr: "irrefl (grel g)" by (auto simp: simple_graph_def)
  from w have f: "Field (grel g) \<subseteq> gkeys g" by (simp add: wf_graph_def)
  have fr: "freeze_id = (\<lambda>v. {v})" by (auto simp: freeze_id_def)
  from SearchSpaceNode_init_props(1)[OF i] edges_endpoints_closed[OF wf_graph_closed[OF w]]
  show k: "gkeys nd = (\<lambda>v. {v}) ` gkeys g" unfolding fr by auto
  have r: "grel nd = map_prod (\<lambda>v. {v}) (\<lambda>v. {v}) ` grel g"
    using SearchSpaceNode_init_props(2)[OF i]
    unfolding fr symcl_map_prod grel_symcl_edges[OF w] by simp
  have q: "qrel (grel g) ((\<lambda>v. {v}) ` gkeys g) = map_prod (\<lambda>v. {v}) (\<lambda>v. {v}) ` grel g"
  proof (intro equalityI subsetI)
    fix x assume "x \<in> qrel (grel g) ((\<lambda>v. {v}) ` gkeys g)"
    then show "x \<in> map_prod (\<lambda>v. {v}) (\<lambda>v. {v}) ` grel g"
      by (auto simp: qrel_def)
  next
    fix x assume "x \<in> map_prod (\<lambda>v. {v}) (\<lambda>v. {v}) ` grel g"
    then obtain u v where x: "x = ({u}, {v})" and uv: "(u, v) \<in> grel g" by auto
    with irr have "u \<noteq> v" by (auto simp: irrefl_def)
    moreover from uv f have "u \<in> gkeys g" "v \<in> gkeys g" by (auto simp: Field_def)
    ultimately show "x \<in> qrel (grel g) ((\<lambda>v. {v}) ` gkeys g)"
      using uv unfolding x qrel_def by auto
  qed
  have p: "partition_on (gkeys g) ((\<lambda>v. {v}) ` gkeys g)"
    by (rule partition_onI) (auto simp: disjnt_def)
  from SearchSpaceNode_init_wf[OF i] p q r show "pnode g nd"
    by (simp add: pnode_def k)
qed

lemma init_edges_fset_total:
  assumes "\<forall>e\<in>set es. fst e \<noteq> {} \<and> snd e \<noteq> {}"
  shows "\<exists>G'. init_edges fset_lt fr es G = Inr G'"
  using assms
proof (induction es arbitrary: G)
  case Nil
  then show ?case by simp
next
  case (Cons e es)
  then have "\<forall>x\<in>set [fst e, snd e]. \<forall>y\<in>set [fst e, snd e]. \<exists>b. fset_lt x y = Inr b"
    by (auto simp: fset_lt_total)
  from py_sorted_total[OF this] obtain st where st: "py_sorted fset_lt [fst e, snd e] = Inr st"
    by auto
  from Cons.IH[of "add_edge G (fr (st ! 0)) (fr (st ! 1))"] Cons.prems st show ?case
    by (auto simp del: py_sorted.simps)
qed

lemma SearchSpaceNode_init_fset_total:
  assumes "wf_graph h" and "\<forall>x\<in>gkeys h. x \<noteq> {}"
  shows "\<exists>c. SearchSpaceNode_init fset_lt freeze_fset h = Inr c \<and> wf_graph c \<and>
     gkeys c = gkeys h \<and> grel c = grel h"
proof -
  have "\<forall>e\<in>set (edges h). fst e \<noteq> {} \<and> snd e \<noteq> {}"
    using edges_ends_in_keys[OF assms(1)] assms(2) by blast
  from init_edges_fset_total[OF this, of freeze_fset "[]"]
  obtain c where c: "SearchSpaceNode_init fset_lt freeze_fset h = Inr c"
    by (auto simp: SearchSpaceNode_init_def)
  have id: "freeze_fset = id" by (auto simp: freeze_fset_def)
  have "gkeys c = gkeys h"
    using SearchSpaceNode_init_props(1)[OF c] edges_endpoints_closed[OF wf_graph_closed[OF assms(1)]]
    unfolding id by auto
  moreover have "grel c = grel h"
    using SearchSpaceNode_init_props(2)[OF c] unfolding id grel_symcl_edges[OF assms(1)]
    by (simp add: map_prod.id)
  ultimately show ?thesis using c SearchSpaceNode_init_wf[OF c] by blast
qed

lemma expand_edge_pnode:
  assumes sg: "simple_graph g" and cg: "connected_graph g" and pn: "pnode g nd"
    and st: "(s, t) \<in> set (edges nd)"
  shows "\<exists>c. expand_edge nd (s, t) = Inr c \<and> pnode g c \<and>
     gkeys c = merge_part s t (gkeys nd) \<and> int (order c) = int (order nd) - 1"
proof -
  let ?V = "gkeys g" and ?E = "grel g" and ?P = "gkeys nd"
  let ?P' = "merge_part s t ?P"
  define h where "h = merge_edges (s, t) (s \<union> t) (edges nd) (add_node [] (s \<union> t))"
  from pn have w: "wf_graph nd" and p: "partition_on ?V ?P" and r: "grel nd = qrel ?E ?P"
    by (auto simp: pnode_def)
  from sg have f: "Field ?E \<subseteq> ?V" by (simp add: simple_graph_def wf_graph_def)
  from cg have c: "\<forall>u\<in>?V. \<forall>v\<in>?V. (u, v) \<in> ?E\<^sup>*" by (simp add: connected_graph_def)
  have irr: "irrefl (grel nd)" unfolding r by (auto simp: irrefl_def qrel_def)
  from st edges_subset[of nd] have q: "(s, t) \<in> qrel ?E ?P" unfolding r[symmetric] by auto
  then have sP: "s \<in> ?P" and tP: "t \<in> ?P" and ne: "s \<noteq> t" by (auto simp: qrel_def)
  note np = new_graph_props[OF w irr st, folded h_def]
  have gh: "grel h = qrel ?E ?P'" unfolding np(1) r by (rule qrel_merge[OF p q])
  have p': "partition_on ?V ?P'" by (rule partition_on_merge[OF p sP tP ne])
  have kh: "gkeys h = ?P'"
  proof (intro equalityI subsetI)
    fix x assume "x \<in> gkeys h"
    then show "x \<in> ?P'" unfolding np(2) gh using Field_qrel_subset[of ?E ?P']
      by (auto simp: merge_part_def)
  next
    fix x assume x: "x \<in> ?P'"
    show "x \<in> gkeys h"
    proof (cases "x = s \<union> t")
      case True
      then show ?thesis by (simp add: np(2))
    next
      case False
      have "s \<union> t \<in> ?P'" by (simp add: merge_part_def)
      from Field_qrel[OF p' f c x this False] show ?thesis
        unfolding np(2) gh by (auto simp: Field_def)
    qed
  qed
  have fP: "finite ?P" by simp
  have dh: "distinct (map fst h)" and dn: "distinct (map fst nd)"
    using np(3) w by (auto simp: wf_graph_def)
  have "card ?P' + 1 = card ?P" by (rule card_merge_part[OF p fP sP tP ne])
  then have ord: "int (order h) = int (order nd) - 1"
    unfolding order_card[OF dh] order_card[OF dn] kh by simp
  have "\<forall>x\<in>gkeys h. x \<noteq> {}" unfolding kh using p' by (auto simp: partition_on_def)
  from SearchSpaceNode_init_fset_total[OF np(3) this] obtain c where
    c: "SearchSpaceNode_init fset_lt freeze_fset h = Inr c" "wf_graph c" "gkeys c = gkeys h" "grel c = grel h"
    by blast
  have "expand_edge nd (s, t) = Inr c"
    using ord c(1) by (simp add: expand_edge_def Let_def h_def)
  moreover have "pnode g c" using c p' gh kh by (simp add: pnode_def)
  moreover have "int (order c) = int (order nd) - 1"
    using ord c(2,3) dh by (simp add: order_card wf_graph_def)
  ultimately show ?thesis using c(3) kh by auto
qed

text \<open>The partition nodes reachable from the graph: the root and all children.\<close>

inductive reachable :: "'a::linorder Graph \<Rightarrow> 'a SearchSpaceNode \<Rightarrow> bool" for g where
  root: "SearchSpaceNode_init id_lt freeze_id g = Inr nd \<Longrightarrow> reachable g nd"
| child: "reachable g nd \<Longrightarrow> Inr c \<in> set (node_expand nd) \<Longrightarrow> reachable g c"

lemma reachable_pnode:
  assumes "simple_graph g" "connected_graph g" "reachable g nd"
  shows "pnode g nd"
  using assms(3)
proof (induction rule: reachable.induct)
  case (root nd)
  then show ?case by (rule root_pnode(1)[OF assms(1)])
next
  case (child nd c)
  from child.hyps(2) obtain e where e: "e \<in> set (edges nd)" "expand_edge nd e = Inr c"
    by (auto simp: node_expand_def)
  obtain s t where st: "e = (s, t)" by (cases e)
  from expand_edge_pnode[OF assms(1,2) child.IH, of s t] e st show ?case by auto
qed

lemma simple_path2: "simple_graph path2"
proof -
  have "wf_graph path2" unfolding path2_def by (intro wf_graph_add_edge wf_graph_Nil)
  moreover have "irrefl (grel path2)" by (auto simp: path2_def irrefl_def)
  ultimately show ?thesis by (simp add: simple_graph_def)
qed

lemma connected_path2: "connected_graph path2"
  by (auto simp: connected_graph_def path2_def)

lemma wf_loop_graph: "wf_graph loop_graph"
  unfolding loop_graph_def by (intro wf_graph_add_edge wf_graph_Nil)

lemma connected_loop_graph: "connected_graph loop_graph"
  by (auto simp: connected_graph_def loop_graph_def)

lemma not_simple_loop_graph: "\<not> simple_graph loop_graph"
  by (auto simp: simple_graph_def irrefl_def loop_graph_def)

section \<open>The levels hold the partitions reached by merging\<close>

text \<open>
  The levels, abstractly: the partitions got from a partition by merging two adjacent
  blocks, from a set of partitions, and from the partition into singletons by \<open>i\<close> rounds.
\<close>

definition merges :: "('a \<times> 'a) set \<Rightarrow> 'a set set \<Rightarrow> 'a set set set" where
  "merges E P = (\<lambda>e. merge_part (fst e) (snd e) P) ` qrel E P"

definition next_parts :: "('a \<times> 'a) set \<Rightarrow> 'a set set set \<Rightarrow> 'a set set set" where
  "next_parts E Ps = (\<Union>P\<in>Ps. merges E P)"

definition level_parts :: "'a set \<Rightarrow> ('a \<times> 'a) set \<Rightarrow> nat \<Rightarrow> 'a set set set" where
  "level_parts V E i = (next_parts E ^^ i) {(\<lambda>v. {v}) ` V}"

text \<open>A node set as a level holds it: partition nodes with different vertex sets.\<close>

definition good_nodes :: "'a Graph \<Rightarrow> 'a SearchSpaceNode list \<Rightarrow> bool" where
  "good_nodes g ns = ((\<forall>nd\<in>set ns. pnode g nd) \<and> distinct (map gkeys ns))"

lemma merge_part_commute: "merge_part s t P = merge_part t s P"
  by (auto simp: merge_part_def)

lemma qrel_no_two:
  assumes p: "partition_on V P" and f: "Field E \<subseteq> V" and c: "\<forall>u\<in>V. \<forall>v\<in>V. (u, v) \<in> E\<^sup>*"
    and e: "qrel E P = {}"
  shows "P = (if V = {} then {} else {V})"
proof -
  have one: "B = C" if "B \<in> P" "C \<in> P" for B C
  proof (rule ccontr)
    assume "B \<noteq> C"
    from Field_qrel[OF p f c that this] e show False by auto
  qed
  show ?thesis
  proof (cases "P = {}")
    case True
    with p show ?thesis by (auto simp: partition_on_def)
  next
    case False
    then obtain B where B: "B \<in> P" by auto
    with one have "P = {B}" by auto
    with p show ?thesis by (auto simp: partition_on_def)
  qed
qed

lemma qrel_inj:
  assumes p: "partition_on V P" and p': "partition_on V P'"
    and f: "Field E \<subseteq> V" and c: "\<forall>u\<in>V. \<forall>v\<in>V. (u, v) \<in> E\<^sup>*"
    and e: "qrel E P = qrel E P'"
  shows "P = P'"
proof (cases "qrel E P = {}")
  case True
  from qrel_no_two[OF p f c True] qrel_no_two[OF p' f c] True e show ?thesis by simp
next
  case False
  have sub: "Q \<subseteq> Q'" if q: "partition_on V Q" and e: "qrel E Q = qrel E Q'" and n: "qrel E Q \<noteq> {}"
    for Q Q'
  proof
    fix B assume B: "B \<in> Q"
    from n obtain X Y where "(X, Y) \<in> qrel E Q" by auto
    then have XY: "X \<in> Q" "Y \<in> Q" "X \<noteq> Y" by (auto simp: qrel_def)
    then obtain C where "C \<in> Q" "B \<noteq> C" by (cases "B = X") auto
    from Field_qrel[OF q f c B this] have "B \<in> Domain (qrel E Q')" unfolding e .
    then show "B \<in> Q'" by (auto simp: qrel_def)
  qed
  from sub[OF p e False] sub[OF p' e[symmetric]] False e show ?thesis by auto
qed

lemma edge_set_grel_eq:
  assumes "wf_graph a" "wf_graph b"
  shows "(edge_set a = edge_set b) = (grel a = grel b)"
proof
  assume e: "edge_set a = edge_set b"
  show "grel a = grel b"
    using edge_set_grel[OF assms(1)] edge_set_grel[OF assms(2)] e by auto
next
  assume g: "grel a = grel b"
  have "edge_set x \<subseteq> edge_set y" if "wf_graph x" "wf_graph y" "grel x = grel y"
    for x y :: "'a Graph"
  proof
    fix z assume "z \<in> edge_set x"
    then obtain e where e: "e \<in> set (edges x)" "z = {fst e, snd e}" by (auto simp: edge_set_def)
    with edges_subset[of x] that(3) have "(fst e, snd e) \<in> grel y" by auto
    with e show "z \<in> edge_set y" by (simp add: edge_set_grel[OF that(2)])
  qed
  from this[OF assms g] this[OF assms(2,1) g[symmetric]] show "edge_set a = edge_set b" by auto
qed

lemma pnode_eq_iff:
  assumes sg: "simple_graph g" and cg: "connected_graph g" and a: "pnode g a" and b: "pnode g b"
  shows "node_eq a b = (gkeys a = gkeys b)"
proof -
  from sg have f: "Field (grel g) \<subseteq> gkeys g" by (simp add: simple_graph_def wf_graph_def)
  from cg have c: "\<forall>u\<in>gkeys g. \<forall>v\<in>gkeys g. (u, v) \<in> (grel g)\<^sup>*" by (simp add: connected_graph_def)
  from a b have w: "wf_graph a" "wf_graph b" by (auto simp: pnode_def)
  have "node_eq a b = (grel a = grel b)"
    by (simp add: node_eq_iff[OF w] edge_set_grel_eq[OF w])
  also have "\<dots> = (gkeys a = gkeys b)"
  proof
    assume "grel a = grel b"
    with a b have "qrel (grel g) (gkeys a) = qrel (grel g) (gkeys b)" by (simp add: pnode_def)
    from qrel_inj[OF _ _ f c this] a b show "gkeys a = gkeys b" by (simp add: pnode_def)
  next
    assume "gkeys a = gkeys b"
    with a b show "grel a = grel b" by (simp add: pnode_def)
  qed
  finally show ?thesis .
qed

lemma set_add_good:
  assumes sg: "simple_graph g" and cg: "connected_graph g"
    and good: "good_nodes g ns" and x: "pnode g x"
  shows "\<exists>ns'. set_add ns x = Inr ns' \<and> good_nodes g ns' \<and>
     gkeys ` set ns' = insert (gkeys x) (gkeys ` set ns)"
proof -
  from x have wx: "wf_graph x" by (simp add: pnode_def)
  from node_hash_canon[OF wx pnode_labels_fin[OF x]] obtain h where h: "node_hash x = Inr h" by simp
  have dup: "list_ex (\<lambda>y. node_hash y = Inr h \<and> node_eq y x) ns = (gkeys x \<in> gkeys ` set ns)"
  proof -
    have "(node_hash y = Inr h \<and> node_eq y x) = (gkeys y = gkeys x)" if "y \<in> set ns" for y
    proof -
      from that good have y: "pnode g y" by (simp add: good_nodes_def)
      then have wy: "wf_graph y" by (simp add: pnode_def)
      have "node_hash y = Inr h" if "node_eq y x"
        using node_hash_edge_set[OF wy pnode_labels_fin[OF y] wx pnode_labels_fin[OF x]]
          node_eq_iff[OF wy wx] that h by simp
      then have "node_eq y x \<longrightarrow> node_hash y = Inr h" by blast
      with pnode_eq_iff[OF sg cg y x] show ?thesis by auto
    qed
    then show ?thesis by (auto simp: list_ex_iff)
  qed
  show ?thesis
  proof (cases "gkeys x \<in> gkeys ` set ns")
    case True
    with dup h good show ?thesis by (auto simp: set_add_def)
  next
    case False
    with dup h have "set_add ns x = Inr (ns @ [x])" by (simp add: set_add_def)
    moreover have "good_nodes g (ns @ [x])" using good x False by (auto simp: good_nodes_def)
    ultimately show ?thesis by auto
  qed
qed

lemma level_add_node_good:
  assumes sg: "simple_graph g" and cg: "connected_graph g"
    and l: "l_nodes l = Some ns" and good: "good_nodes g ns" and x: "pnode g x"
  shows "\<exists>ns'. level_add_node l x = Inr (l\<lparr>l_nodes := Some ns'\<rparr>) \<and> good_nodes g ns' \<and>
     gkeys ` set ns' = insert (gkeys x) (gkeys ` set ns)"
  using set_add_good[OF sg cg good x] l by (auto simp: level_add_node_def)

lemma add_children_good:
  assumes sg: "simple_graph g" and cg: "connected_graph g" and nd: "pnode g nd"
  shows "set es \<subseteq> set (edges nd) \<Longrightarrow> l_nodes l = Some ns \<Longrightarrow> good_nodes g ns \<Longrightarrow>
     \<exists>ns'. add_children (map (expand_edge nd) es) l = Inr (l\<lparr>l_nodes := Some ns'\<rparr>) \<and>
       good_nodes g ns' \<and>
       gkeys ` set ns' = gkeys ` set ns \<union> (\<lambda>e. merge_part (fst e) (snd e) (gkeys nd)) ` set es"
proof (induction es arbitrary: l ns)
  case Nil
  then show ?case by (auto intro!: exI[of _ ns])
next
  case (Cons e es)
  obtain s t where e: "e = (s, t)" by (cases e)
  with Cons.prems(1) have st: "(s, t) \<in> set (edges nd)" by simp
  from expand_edge_pnode[OF sg cg nd st] obtain c where
    c: "expand_edge nd (s, t) = Inr c" "pnode g c" "gkeys c = merge_part s t (gkeys nd)" by blast
  from level_add_node_good[OF sg cg Cons.prems(2,3) c(2)] obtain ns1 where
    ns1: "level_add_node l c = Inr (l\<lparr>l_nodes := Some ns1\<rparr>)" "good_nodes g ns1"
      "gkeys ` set ns1 = insert (gkeys c) (gkeys ` set ns)" by blast
  from Cons.prems(1) have sub: "set es \<subseteq> set (edges nd)" by simp
  from Cons.IH[OF sub _ ns1(2), of "l\<lparr>l_nodes := Some ns1\<rparr>"] obtain ns' where
    ns': "add_children (map (expand_edge nd) es) (l\<lparr>l_nodes := Some ns1\<rparr>) = Inr (l\<lparr>l_nodes := Some ns'\<rparr>)"
      "good_nodes g ns'"
      "gkeys ` set ns' = gkeys ` set ns1 \<union> (\<lambda>e. merge_part (fst e) (snd e) (gkeys nd)) ` set es"
    by auto
  have "add_children (map (expand_edge nd) (e # es)) l = Inr (l\<lparr>l_nodes := Some ns'\<rparr>)"
    using c(1) ns1(1) ns'(1) by (simp add: e)
  moreover have "gkeys ` set ns' =
      gkeys ` set ns \<union> (\<lambda>e. merge_part (fst e) (snd e) (gkeys nd)) ` set (e # es)"
    unfolding ns'(3) ns1(3) c(3) e by auto
  ultimately show ?case using ns'(2) by blast
qed

lemma merges_edges:
  assumes "pnode g nd"
  shows "(\<lambda>e. merge_part (fst e) (snd e) (gkeys nd)) ` set (edges nd) = merges (grel g) (gkeys nd)"
proof -
  from assms have w: "wf_graph nd" and r: "qrel (grel g) (gkeys nd) = grel nd" by (auto simp: pnode_def)
  let ?m = "\<lambda>e. merge_part (fst e) (snd e) (gkeys nd)"
  have "?m ` symcl (set (edges nd)) = ?m ` set (edges nd)"
  proof (intro equalityI subsetI)
    fix x assume "x \<in> ?m ` symcl (set (edges nd))"
    then obtain u v where "x = merge_part u v (gkeys nd)"
      and "(u, v) \<in> set (edges nd) \<or> (v, u) \<in> set (edges nd)"
      by (auto simp: symcl_def)
    then show "x \<in> ?m ` set (edges nd)"
      using merge_part_commute[of u v "gkeys nd"] by force
  qed (auto simp: symcl_def)
  then show ?thesis unfolding merges_def r grel_symcl_edges[OF w] by simp
qed

lemma expand_nodes_good:
  assumes sg: "simple_graph g" and cg: "connected_graph g"
  shows "\<forall>nd\<in>set ms. pnode g nd \<Longrightarrow> l_nodes l = Some ns \<Longrightarrow> good_nodes g ns \<Longrightarrow>
     \<exists>ns'. expand_nodes ms l = Inr (l\<lparr>l_nodes := Some ns'\<rparr>) \<and> good_nodes g ns' \<and>
       gkeys ` set ns' = gkeys ` set ns \<union> next_parts (grel g) (gkeys ` set ms)"
proof (induction ms arbitrary: l ns)
  case Nil
  then show ?case by (auto simp: next_parts_def intro!: exI[of _ ns])
next
  case (Cons nd ms)
  then have nd: "pnode g nd" by simp
  from add_children_good[OF sg cg nd subset_refl Cons.prems(2,3)] obtain ns1 where
    ns1: "add_children (node_expand nd) l = Inr (l\<lparr>l_nodes := Some ns1\<rparr>)" "good_nodes g ns1"
      "gkeys ` set ns1 = gkeys ` set ns \<union> merges (grel g) (gkeys nd)"
    unfolding merges_edges[OF nd] node_expand_def by blast
  from Cons.prems(1) have ms: "\<forall>nd\<in>set ms. pnode g nd" by simp
  from Cons.IH[OF ms _ ns1(2), of "l\<lparr>l_nodes := Some ns1\<rparr>"] obtain ns' where
    ns': "expand_nodes ms (l\<lparr>l_nodes := Some ns1\<rparr>) = Inr (l\<lparr>l_nodes := Some ns'\<rparr>)"
      "good_nodes g ns'"
      "gkeys ` set ns' = gkeys ` set ns1 \<union> next_parts (grel g) (gkeys ` set ms)"
    by auto
  have "expand_nodes (nd # ms) l = Inr (l\<lparr>l_nodes := Some ns'\<rparr>)"
    using ns1(1) ns'(1) by simp
  moreover have "gkeys ` set ns' = gkeys ` set ns \<union> next_parts (grel g) (gkeys ` set (nd # ms))"
    unfolding ns'(3) ns1(3) by (auto simp: next_parts_def)
  ultimately show ?case using ns'(2) by blast
qed

lemma level_expand_good:
  assumes sg: "simple_graph g" and cg: "connected_graph g"
    and l: "l_nodes l = Some ns" and good: "good_nodes g ns" and n: "\<not> l_next l"
  shows "\<exists>ns'. level_expand l =
       (Inr \<lparr>l_nodes = Some ns', l_level = l_level l + 1, l_num_partitions = None,
             l_next = False, l_previous = True\<rparr>, l\<lparr>l_next := True\<rparr>) \<and>
     good_nodes g ns' \<and> gkeys ` set ns' = next_parts (grel g) (gkeys ` set ns)"
proof -
  let ?l0 = "\<lparr>l_nodes = Some [], l_level = l_level l + 1, l_num_partitions = None,
      l_next = False, l_previous = True\<rparr> :: 'a SearchSpaceLevel"
  have i: "SearchSpaceLevel_init None (Some l) = Inr ?l0"
    by (simp add: SearchSpaceLevel_init_def truthy_def)
  have g0: "good_nodes g []" by (simp add: good_nodes_def)
  from good have "\<forall>nd\<in>set ns. pnode g nd" by (simp add: good_nodes_def)
  from expand_nodes_good[OF sg cg this _ g0, of ?l0] obtain ns' where
    ns': "expand_nodes ns ?l0 = Inr (?l0\<lparr>l_nodes := Some ns'\<rparr>)" "good_nodes g ns'"
      "gkeys ` set ns' = next_parts (grel g) (gkeys ` set ns)"
    by auto
  from i l n ns'(1) have "level_expand l =
       (Inr \<lparr>l_nodes = Some ns', l_level = l_level l + 1, l_num_partitions = None,
             l_next = False, l_previous = True\<rparr>, l\<lparr>l_next := True\<rparr>)"
    by (simp add: level_expand_def)
  with ns'(2,3) show ?thesis by blast
qed

lemma level_parts_0 [simp]: "level_parts V E 0 = {(\<lambda>v. {v}) ` V}"
  by (simp add: level_parts_def)

lemma level_parts_Suc: "level_parts V E (Suc i) = next_parts E (level_parts V E i)"
  by (simp add: level_parts_def)

lemma in_next_parts:
  "(P \<in> next_parts E Ps) = (\<exists>Q\<in>Ps. \<exists>s t. (s, t) \<in> qrel E Q \<and> P = merge_part s t Q)"
proof
  assume "P \<in> next_parts E Ps"
  then show "\<exists>Q\<in>Ps. \<exists>s t. (s, t) \<in> qrel E Q \<and> P = merge_part s t Q"
    unfolding next_parts_def merges_def by clarsimp blast
next
  assume "\<exists>Q\<in>Ps. \<exists>s t. (s, t) \<in> qrel E Q \<and> P = merge_part s t Q"
  then obtain Q s t where "Q \<in> Ps" "(s, t) \<in> qrel E Q" "P = merge_part s t Q" by blast
  then have "P \<in> merges E Q" unfolding merges_def by force
  with \<open>Q \<in> Ps\<close> show "P \<in> next_parts E Ps" by (auto simp: next_parts_def)
qed

lemma partition_singletons: "partition_on V ((\<lambda>v. {v}) ` V)"
  by (rule partition_onI) (auto simp: disjnt_def)

lemma level_parts_partition:
  assumes "finite V"
  shows "P \<in> level_parts V E i \<Longrightarrow> partition_on V P \<and> card P + i = card V"
proof (induction i arbitrary: P)
  case 0
  have "card ((\<lambda>v. {v}) ` V) = card V" by (rule card_image) (simp add: inj_on_def)
  with 0 show ?case by (simp add: partition_singletons)
next
  case (Suc i)
  from Suc.prems obtain Q s t where Q: "Q \<in> level_parts V E i" and q: "(s, t) \<in> qrel E Q"
    and P: "P = merge_part s t Q"
    by (auto simp: level_parts_Suc in_next_parts)
  from Suc.IH[OF Q] have pQ: "partition_on V Q" and cQ: "card Q + i = card V" by auto
  from q have st: "s \<in> Q" "t \<in> Q" "s \<noteq> t" by (auto simp: qrel_def)
  from finite_elements[OF assms pQ] have fQ: "finite Q" .
  from partition_on_merge[OF pQ st] card_merge_part[OF pQ fQ st] cQ show ?case
    unfolding P by simp
qed

lemma finite_level_parts:
  assumes "finite V"
  shows "finite (level_parts V E i)"
proof (rule finite_subset)
  show "level_parts V E i \<subseteq> Pow (Pow V)"
    using level_parts_partition[OF assms, of _ E i] by (auto simp: partition_on_def)
  show "finite (Pow (Pow V))" using assms by simp
qed

lemma two_blocks:
  assumes "finite P" "2 \<le> card P"
  shows "\<exists>B\<in>P. \<exists>C\<in>P. B \<noteq> C"
proof -
  from assms(2) have "P \<noteq> {}" by auto
  then obtain B where B: "B \<in> P" by auto
  have "card (P - {B}) \<ge> 1" using assms B by simp
  then have "P - {B} \<noteq> {}" by (metis card.empty not_one_le_zero)
  then obtain C where "C \<in> P" "C \<noteq> B" by auto
  with B show ?thesis by blast
qed

lemma level_parts_nonempty:
  assumes fin: "finite V" and f: "Field E \<subseteq> V" and c: "\<forall>u\<in>V. \<forall>v\<in>V. (u, v) \<in> E\<^sup>*"
  shows "i < card V \<Longrightarrow> level_parts V E i \<noteq> {}"
proof (induction i)
  case 0
  then show ?case by simp
next
  case (Suc i)
  then obtain Q where Q: "Q \<in> level_parts V E i" by auto
  from level_parts_partition[OF fin Q] have pQ: "partition_on V Q" and cQ: "card Q + i = card V" by auto
  from finite_elements[OF fin pQ] have fQ: "finite Q" .
  from cQ Suc.prems have "2 \<le> card Q" by simp
  from two_blocks[OF fQ this] obtain B C where BC: "B \<in> Q" "C \<in> Q" "B \<noteq> C" by blast
  from Field_qrel[OF pQ f c BC] obtain D where "(B, D) \<in> qrel E Q" by auto
  with Q have "merge_part B D Q \<in> level_parts V E (Suc i)"
    by (auto simp: level_parts_Suc in_next_parts)
  then show ?case by auto
qed

lemma merge_part_inj:
  assumes p: "partition_on V P" and st: "s \<in> P" "t \<in> P" "s \<noteq> t"
    and uv: "u \<in> P" "v \<in> P" "u \<noteq> v" and eq: "merge_part s t P = merge_part u v P"
  shows "{s, t} = {u, v}"
proof -
  from merge_not_in[OF p st] have "s \<union> t \<notin> P" .
  moreover have "s \<union> t \<in> merge_part u v P" unfolding eq[symmetric] by (simp add: merge_part_def)
  ultimately have e: "s \<union> t = u \<union> v" by (auto simp: merge_part_def)
  have mem: "B \<in> {u, v}" if "B \<in> P" "B \<subseteq> u \<union> v" for B
  proof -
    from p that(1) have "B \<noteq> {}" by (auto simp: partition_on_def)
    then obtain x where x: "x \<in> B" by auto
    with that(2) have "x \<in> u \<or> x \<in> v" by auto
    then show ?thesis
      using partition_on_block_eq[OF p that(1) uv(1) x] partition_on_block_eq[OF p that(1) uv(2) x]
      by auto
  qed
  have mem': "B \<in> {s, t}" if "B \<in> P" "B \<subseteq> s \<union> t" for B
  proof -
    from p that(1) have "B \<noteq> {}" by (auto simp: partition_on_def)
    then obtain x where x: "x \<in> B" by auto
    with that(2) have "x \<in> s \<or> x \<in> t" by auto
    then show ?thesis
      using partition_on_block_eq[OF p that(1) st(1) x] partition_on_block_eq[OF p that(1) st(2) x]
      by auto
  qed
  from mem[OF st(1)] mem[OF st(2)] mem'[OF uv(1)] mem'[OF uv(2)] e st(3) uv(3)
  show ?thesis by auto
qed

lemma level_parts_two:
  assumes fin: "finite V" and f: "Field E \<subseteq> V" and c: "\<forall>u\<in>V. \<forall>v\<in>V. (u, v) \<in> E\<^sup>*"
    and i: "1 \<le> i" "i + 2 \<le> card V"
  shows "2 \<le> card (level_parts V E i)"
proof -
  from i obtain j where j: "i = Suc j" by (cases i) auto
  with i have "j < card V" by simp
  from level_parts_nonempty[OF fin f c this] obtain Q where Q: "Q \<in> level_parts V E j" by auto
  from level_parts_partition[OF fin Q] have pQ: "partition_on V Q" and cQ: "card Q + j = card V" by auto
  from finite_elements[OF fin pQ] have fQ: "finite Q" .
  from cQ i j have c3: "3 \<le> card Q" by simp
  then have "2 \<le> card Q" by simp
  from two_blocks[OF fQ this] obtain A A' where A: "A \<in> Q" "A' \<in> Q" "A \<noteq> A'" by blast
  from Field_qrel[OF pQ f c A] obtain X where AX: "(A, X) \<in> qrel E Q" by auto
  then have X: "X \<in> Q" "A \<noteq> X" by (auto simp: qrel_def)
  have "card (Q - {A, X}) \<ge> 1" using c3 fQ A(1) X by (simp add: card_Diff_subset)
  then have "Q - {A, X} \<noteq> {}" by (metis card.empty not_one_le_zero)
  then obtain D where D: "D \<in> Q" "D \<noteq> A" "D \<noteq> X" by auto
  from Field_qrel[OF pQ f c D(1) A(1) D(2)] obtain Y where DY: "(D, Y) \<in> qrel E Q" by auto
  then have Y: "Y \<in> Q" "D \<noteq> Y" by (auto simp: qrel_def)
  have ne: "merge_part A X Q \<noteq> merge_part D Y Q"
  proof
    assume "merge_part A X Q = merge_part D Y Q"
    from merge_part_inj[OF pQ A(1) X D(1) Y this] D(2,3) show False by auto
  qed
  have m: "merge_part A X Q \<in> level_parts V E i" "merge_part D Y Q \<in> level_parts V E i"
    using Q AX DY unfolding j by (auto simp: level_parts_Suc in_next_parts)
  have "card {merge_part A X Q, merge_part D Y Q} \<le> card (level_parts V E i)"
    using m by (intro card_mono finite_level_parts[OF fin]) auto
  with ne show ?thesis by simp
qed

lemma level_parts_last:
  assumes fin: "finite V" and f: "Field E \<subseteq> V" and c: "\<forall>u\<in>V. \<forall>v\<in>V. (u, v) \<in> E\<^sup>*"
    and n: "1 \<le> card V"
  shows "level_parts V E (card V - 1) = {{V}}"
proof -
  from n have "card V - 1 < card V" by simp
  from level_parts_nonempty[OF fin f c this] have ne: "level_parts V E (card V - 1) \<noteq> {}" .
  have "P = {V}" if "P \<in> level_parts V E (card V - 1)" for P
  proof -
    from level_parts_partition[OF fin that] n have p: "partition_on V P" and "card P = 1" by auto
    then obtain B where "P = {B}" by (auto simp: card_1_singleton_iff)
    with p show ?thesis by (auto simp: partition_on_def)
  qed
  with ne show ?thesis by auto
qed

lemma level_parts_beyond:
  assumes fin: "finite V" and n: "1 \<le> card V"
  shows "level_parts V E (card V) = {}"
proof (rule ccontr)
  assume "level_parts V E (card V) \<noteq> {}"
  then obtain P where P: "P \<in> level_parts V E (card V)" by auto
  from level_parts_partition[OF fin P] have p: "partition_on V P" and "card P = 0" by auto
  moreover from finite_elements[OF fin p] have "finite P" .
  ultimately have "P = {}" by simp
  with p have "V = {}" by (auto simp: partition_on_def)
  with n show False by simp
qed

text \<open>
  The level at index \<open>i\<close> as \<open>expand\<close> returns it, holding the partitions of round
  \<open>i\<close>, and as the loop leaves it behind: expanded, compressed if the flag is set, with
  the count of round \<open>i\<close>.
\<close>

definition open_level :: "'a Graph \<Rightarrow> nat \<Rightarrow> 'a SearchSpaceLevel \<Rightarrow> bool" where
  "open_level g i l =
     ((\<exists>ns. l_nodes l = Some ns \<and> good_nodes g ns \<and>
         gkeys ` set ns = level_parts (gkeys g) (grel g) i) \<and>
      l_num_partitions l = None \<and> \<not> l_next l \<and> l_level l = i)"

definition done_level :: "'a Graph \<Rightarrow> bool \<Rightarrow> nat \<Rightarrow> 'a SearchSpaceLevel \<Rightarrow> bool" where
  "done_level g c i l =
     (num_partitions l = Inr (card (level_parts (gkeys g) (grel g) i)) \<and> l_level l = i \<and>
      l_next l \<and> (l_nodes l = None) = c)"

lemma good_nodes_length: "good_nodes g ns \<Longrightarrow> length ns = card (gkeys ` set ns)"
  using distinct_card[of "map gkeys ns"] by (simp add: good_nodes_def)

lemma open_level_num:
  "open_level g i l \<Longrightarrow> num_partitions l = Inr (card (level_parts (gkeys g) (grel g) i))"
  by (auto simp: open_level_def num_partitions_def dest: good_nodes_length)

lemma open_level_done:
  assumes "open_level g i l"
  shows "done_level g c i (if c then compress (l\<lparr>l_next := True\<rparr>) else l\<lparr>l_next := True\<rparr>)"
  using assms open_level_num[OF assms]
  by (auto simp: open_level_def done_level_def compress_def num_partitions_def dest: good_nodes_length)

lemma level_expand_open:
  assumes sg: "simple_graph g" and cg: "connected_graph g" and o: "open_level g i l"
  shows "\<exists>nxt. level_expand l = (Inr nxt, l\<lparr>l_next := True\<rparr>) \<and> open_level g (Suc i) nxt"
proof -
  from o obtain ns where ns: "l_nodes l = Some ns" "good_nodes g ns"
    "gkeys ` set ns = level_parts (gkeys g) (grel g) i" and n: "\<not> l_next l" and lv: "l_level l = i"
    by (auto simp: open_level_def)
  from level_expand_good[OF sg cg ns(1,2) n] obtain ns' where
    e: "level_expand l =
       (Inr \<lparr>l_nodes = Some ns', l_level = l_level l + 1, l_num_partitions = None,
             l_next = False, l_previous = True\<rparr>, l\<lparr>l_next := True\<rparr>)"
    and g: "good_nodes g ns'" "gkeys ` set ns' = next_parts (grel g) (gkeys ` set ns)"
    by blast
  have "open_level g (Suc i) \<lparr>l_nodes = Some ns', l_level = l_level l + 1, l_num_partitions = None,
             l_next = False, l_previous = True\<rparr>"
    using g ns(3) lv by (simp add: open_level_def level_parts_Suc)
  with e show ?thesis by blast
qed

lemma build_loop_run:
  assumes sg: "simple_graph g" and cg: "connected_graph g"
  shows "length ls = Suc j \<Longrightarrow> j \<le> m \<Longrightarrow> \<forall>i<j. done_level g c i (ls ! i) \<Longrightarrow>
     open_level g j (last ls) \<Longrightarrow>
     \<forall>i. j \<le> i \<and> i < m \<longrightarrow> 1 < card (level_parts (gkeys g) (grel g) i) \<Longrightarrow>
     card (level_parts (gkeys g) (grel g) m) \<le> 1 \<Longrightarrow>
     \<exists>ls'. build_loop c ls = (Inr (), ls') \<and> length ls' = Suc m \<and>
       (\<forall>i<m. done_level g c i (ls' ! i)) \<and> open_level g m (last ls')"
proof (induction "m - j" arbitrary: j ls)
  case 0
  then have jm: "j = m" by simp
  from "0.prems"(1) have ne: "ls \<noteq> []" by auto
  from open_level_num[OF "0.prems"(4)] "0.prems"(6) jm
  have "build_loop c ls = (Inr (), ls)"
    by (intro build_loop_stop[OF ne]) auto
  with "0.prems" jm show ?case by auto
next
  case (Suc d)
  then have jm: "j < m" by simp
  from Suc.prems(1) have ne: "ls \<noteq> []" by auto
  let ?LP = "level_parts (gkeys g) (grel g)"
  from Suc.prems(5) jm have big: "1 < card (?LP j)" by simp
  from level_expand_open[OF sg cg Suc.prems(4)] obtain nxt where
    e: "level_expand (last ls) = (Inr nxt, (last ls)\<lparr>l_next := True\<rparr>)"
    and o: "open_level g (Suc j) nxt" by blast
  let ?y = "(last ls)\<lparr>l_next := True\<rparr>"
  let ?ls = "butlast ls @ [if c then compress ?y else ?y, nxt]"
  have step: "build_loop c ls = build_loop c ?ls"
    by (rule build_loop_step[OF ne open_level_num[OF Suc.prems(4)] big e])
  have len: "length ?ls = Suc (Suc j)" using Suc.prems(1) by simp
  have lb: "length (butlast ls) = j" using Suc.prems(1) by simp
  have d: "\<forall>i<Suc j. done_level g c i (?ls ! i)"
  proof (intro allI impI)
    fix i assume i: "i < Suc j"
    show "done_level g c i (?ls ! i)"
    proof (cases "i < j")
      case True
      then have "?ls ! i = ls ! i" using lb by (simp add: nth_append nth_butlast)
      with Suc.prems(3) True show ?thesis by simp
    next
      case False
      with i have ij: "i = j" by simp
      then have "?ls ! i = (if c then compress ?y else ?y)" using lb by (simp add: nth_append)
      with open_level_done[OF Suc.prems(4), of c] ij show ?thesis by simp
    qed
  qed
  have la: "open_level g (Suc j) (last ?ls)" using o by simp
  have "d = m - Suc j" using Suc.hyps(2) by simp
  from Suc.hyps(1)[OF this len _ d la] Suc.prems(5,6) jm
  obtain ls' where "build_loop c ?ls = (Inr (), ls')" "length ls' = Suc m"
    "\<forall>i<m. done_level g c i (ls' ! i)" "open_level g m (last ls')"
    by auto
  with step show ?case by auto
qed

lemma card_gkeys: "wf_graph g \<Longrightarrow> card (gkeys g) = order g"
  by (simp add: order_card wf_graph_def)

lemma build_run:
  assumes sg: "simple_graph g" and cg: "connected_graph g" and n: "order g \<noteq> 0"
    and sp: "s_graph sp = g" and m: "1 \<le> m"
    and big: "\<forall>i. 1 \<le> i \<and> i < m \<longrightarrow> 1 < card (level_parts (gkeys g) (grel g) i)"
    and small: "card (level_parts (gkeys g) (grel g) m) \<le> 1"
  shows "\<exists>ls0. build sp =
       (Inr (if s_compress sp then butlast ls0 @ [compress (last ls0)] else ls0),
        sp\<lparr>s_levels := Some (if s_compress sp then butlast ls0 @ [compress (last ls0)] else ls0)\<rparr>) \<and>
     length ls0 = Suc m \<and> (\<forall>i<m. done_level g (s_compress sp) i (ls0 ! i)) \<and>
     open_level g m (last ls0)"
proof -
  let ?c = "s_compress sp"
  from SearchSpaceLevel_init_graph[OF n] obtain nd where
    nd: "SearchSpaceNode_init id_lt freeze_id g = Inr nd"
    and l0: "SearchSpaceLevel_init (Some g) None =
       Inr \<lparr>l_nodes = Some [nd], l_level = 0, l_num_partitions = None, l_next = False, l_previous = False\<rparr>"
    by blast
  let ?l0 = "\<lparr>l_nodes = Some [nd], l_level = 0, l_num_partitions = None, l_next = False,
      l_previous = False\<rparr> :: 'a SearchSpaceLevel"
  have o0: "open_level g 0 ?l0"
    using root_pnode[OF sg nd] by (simp add: open_level_def good_nodes_def)
  from level_expand_open[OF sg cg o0] obtain l1 where
    e: "level_expand ?l0 = (Inr l1, ?l0\<lparr>l_next := True\<rparr>)" and o1: "open_level g (Suc 0) l1"
    by blast
  let ?y = "?l0\<lparr>l_next := True\<rparr>"
  let ?ls = "[if ?c then compress ?y else ?y, l1]"
  have d: "\<forall>i<Suc 0. done_level g ?c i (?ls ! i)"
    using open_level_done[OF o0, of ?c] by simp
  have "\<exists>ls'. build_loop ?c ?ls = (Inr (), ls') \<and> length ls' = Suc m \<and>
       (\<forall>i<m. done_level g ?c i (ls' ! i)) \<and> open_level g m (last ls')"
  proof (rule build_loop_run[OF sg cg _ _ d])
    show "length ?ls = Suc (Suc 0)" by simp
    show "Suc 0 \<le> m" using m by simp
    show "open_level g (Suc 0) (last ?ls)" using o1 by simp
    show "\<forall>i. Suc 0 \<le> i \<and> i < m \<longrightarrow> 1 < card (level_parts (gkeys g) (grel g) i)"
      using big by simp
    show "card (level_parts (gkeys g) (grel g) m) \<le> 1" by (rule small)
  qed
  then obtain ls0 where r: "build_loop ?c ?ls = (Inr (), ls0)" "length ls0 = Suc m"
    "\<forall>i<m. done_level g ?c i (ls0 ! i)" "open_level g m (last ls0)" by blast
  have "build sp =
       (Inr (if ?c then butlast ls0 @ [compress (last ls0)] else ls0),
        sp\<lparr>s_levels := Some (if ?c then butlast ls0 @ [compress (last ls0)] else ls0)\<rparr>)"
  proof (cases ?c)
    case True
    with l0 e r(1) show ?thesis by (simp add: build_def sp Let_def)
  next
    case False
    with l0 e r(1) show ?thesis by (simp add: build_def sp Let_def)
  qed
  with r(2,3,4) show ?thesis by blast
qed

text \<open>The index of the last level of a graph with \<open>n\<close> nodes.\<close>

definition last_index :: "nat \<Rightarrow> nat" where
  "last_index n = (if 2 \<le> n then n - 1 else 1)"

lemma level_conditions:
  assumes sg: "simple_graph g" and cg: "connected_graph g" and n: "order g \<noteq> 0"
  shows "\<forall>i. 1 \<le> i \<and> i < last_index (order g) \<longrightarrow> 1 < card (level_parts (gkeys g) (grel g) i)"
    and "card (level_parts (gkeys g) (grel g) (last_index (order g))) \<le> 1"
    and "2 \<le> order g \<Longrightarrow> level_parts (gkeys g) (grel g) (order g - 1) = {{gkeys g}}"
proof -
  let ?V = "gkeys g" and ?E = "grel g"
  from sg have w: "wf_graph g" by (simp add: simple_graph_def)
  then have f: "Field ?E \<subseteq> ?V" by (simp add: wf_graph_def)
  from cg have c: "\<forall>u\<in>?V. \<forall>v\<in>?V. (u, v) \<in> ?E\<^sup>*" by (simp add: connected_graph_def)
  have fin: "finite ?V" by simp
  note cV = card_gkeys[OF w]
  from n cV have n1: "1 \<le> card ?V" by simp
  show "\<forall>i. 1 \<le> i \<and> i < last_index (order g) \<longrightarrow> 1 < card (level_parts ?V ?E i)"
  proof (intro allI impI)
    fix i assume i: "1 \<le> i \<and> i < last_index (order g)"
    then have "2 \<le> order g" by (auto simp: last_index_def split: if_splits)
    with i have "i < order g - 1" by (simp add: last_index_def)
    then have "i + 2 \<le> card ?V" unfolding cV by linarith
    from level_parts_two[OF fin f c _ this] i show "1 < card (level_parts ?V ?E i)" by simp
  qed
  show "card (level_parts ?V ?E (last_index (order g))) \<le> 1"
  proof (cases "2 \<le> order g")
    case True
    then have "last_index (order g) = card ?V - 1" by (simp add: last_index_def cV)
    with level_parts_last[OF fin f c n1] show ?thesis by simp
  next
    case False
    with n have "last_index (order g) = card ?V" by (simp add: last_index_def cV)
    with level_parts_beyond[OF fin n1, of ?E] show ?thesis by simp
  qed
  show "level_parts ?V ?E (order g - 1) = {{?V}}" if "2 \<le> order g"
    using level_parts_last[OF fin f c n1] by (simp add: cV)
qed

lemma build_connected:
  assumes sg: "simple_graph g" and cg: "connected_graph g" and n: "order g \<noteq> 0"
    and sp: "s_graph sp = g"
  shows "\<exists>ls0. build sp =
       (Inr (if s_compress sp then butlast ls0 @ [compress (last ls0)] else ls0),
        sp\<lparr>s_levels := Some (if s_compress sp then butlast ls0 @ [compress (last ls0)] else ls0)\<rparr>) \<and>
     length ls0 = Suc (last_index (order g)) \<and>
     (\<forall>i<last_index (order g). done_level g (s_compress sp) i (ls0 ! i)) \<and>
     open_level g (last_index (order g)) (last ls0)"
proof -
  have "1 \<le> last_index (order g)" unfolding last_index_def by (cases "2 \<le> order g") simp_all
  from build_run[OF sg cg n sp this level_conditions(1,2)[OF sg cg n]] show ?thesis .
qed

lemma simple_single1: "simple_graph single1"
proof -
  have "wf_graph single1" unfolding single1_def by (intro wf_graph_add_node wf_graph_Nil)
  moreover have "irrefl (grel single1)" by (auto simp: single1_def irrefl_def)
  ultimately show ?thesis by (simp add: simple_graph_def)
qed

lemma connected_single1: "connected_graph single1"
  by (auto simp: connected_graph_def single1_def)

lemma build_loop_graph_True:
  "fst (build (SearchSpace_init loop_graph True)) = Inl AssertionError"
  by code_simp

lemma build_loop_graph_False:
  "fst (build (SearchSpace_init loop_graph False)) = Inl AssertionError"
  by code_simp

section \<open>The bounds on the number of partitions of a level\<close>

subsection \<open>Partitions of a set into a given number of blocks\<close>

text \<open>
  The partitions of \<open>A\<close> into \<open>k\<close> blocks.  Removing an element \<open>a\<close> from a partition of
  \<open>insert a A\<close> either removes the block \<open>{a}\<close> or shrinks the block of \<open>a\<close>, which gives
  the recurrence of the Stirling numbers of the second kind as an upper bound.
\<close>

definition parts_of :: "'a set \<Rightarrow> nat \<Rightarrow> 'a set set set" where
  "parts_of A k = {P. partition_on A P \<and> card P = k}"

lemma finite_parts_of: "finite A \<Longrightarrow> finite (parts_of A k)"
  using finitely_many_partition_on[of A] by (simp add: parts_of_def)

lemma parts_of_empty: "parts_of {} k = (if k = 0 then {{}} else {})"
  by (auto simp: parts_of_def partition_on_empty)

lemma partition_on_remove:
  assumes p: "partition_on V P" and B: "B \<in> P"
  shows "partition_on (V - B) (P - {B})" and "disjnt B (\<Union>(P - {B}))"
proof -
  show d: "disjnt B (\<Union>(P - {B}))"
    unfolding disjnt_iff
  proof (intro allI notI)
    fix x assume "x \<in> B \<and> x \<in> \<Union>(P - {B})"
    then obtain C where "x \<in> B" "C \<in> P" "C \<noteq> B" "x \<in> C" by blast
    with partition_on_block_eq[OF p this(2) B, of x] show False by simp
  qed
  have "insert B (P - {B}) = P" using B by blast
  with p have "partition_on V (insert B (P - {B}))" by simp
  then show "partition_on (V - B) (P - {B})"
    unfolding partition_on_insert[OF d] by blast
qed

lemma parts_of_cover_single:
  assumes fin: "finite A" and a: "a \<notin> A" and P: "P \<in> parts_of (insert a A) (Suc j)"
    and B: "{a} \<in> P"
  shows "P \<in> insert {a} ` parts_of A j"
proof -
  from P have p: "partition_on (insert a A) P" and c: "card P = Suc j" by (simp_all add: parts_of_def)
  from finite_elements[OF _ p] fin have fP: "finite P" by simp
  have "insert a A - {a} = A" using a by blast
  with partition_on_remove(1)[OF p B] have "partition_on A (P - {{a}})" by simp
  moreover have "card (P - {{a}}) = j" using c fP B by simp
  ultimately have "P - {{a}} \<in> parts_of A j" by (simp add: parts_of_def)
  moreover have "P = insert {a} (P - {{a}})" using B by blast
  ultimately show ?thesis by (rule rev_image_eqI)
qed

lemma parts_of_cover_other:
  assumes fin: "finite A" and a: "a \<notin> A" and P: "P \<in> parts_of (insert a A) (Suc j)"
    and B: "B \<in> P" "a \<in> B" "B \<noteq> {a}"
  shows "P \<in> (\<lambda>x. insert (insert a (snd x)) (fst x - {snd x})) ` (SIGMA Q:parts_of A (Suc j). Q)"
proof -
  from P have p: "partition_on (insert a A) P" and c: "card P = Suc j" by (simp_all add: parts_of_def)
  from finite_elements[OF _ p] fin have fP: "finite P" by simp
  define C where "C = B - {a}"
  define R where "R = P - {B}"
  define Q where "Q = insert C R"
  from p B(1) have BA: "B \<subseteq> insert a A" unfolding partition_on_def by blast
  have Cne: "C \<noteq> {}" using B(2,3) unfolding C_def by blast
  have CA: "C \<subseteq> A" using BA unfolding C_def by blast
  have aC: "insert a C = B" using B(2) unfolding C_def by blast
  note r = partition_on_remove[OF p B(1), folded R_def]
  have dC: "disjnt C (\<Union>R)" using r(2) unfolding C_def disjnt_iff by blast
  have AC: "A - C = insert a A - B" using a B(2) unfolding C_def by blast
  have pQ: "partition_on A Q"
    unfolding Q_def partition_on_insert[OF dC] AC using r(1) CA Cne by simp
  have CR: "C \<notin> R"
  proof
    assume "C \<in> R"
    then have "C \<subseteq> \<Union>R" by blast
    with dC Cne show False unfolding disjnt_iff by blast
  qed
  have fR: "finite R" using fP unfolding R_def by simp
  have "card R = j" using c fP B(1) unfolding R_def by simp
  then have cQ: "card Q = Suc j" using CR fR unfolding Q_def by simp
  have QC: "Q - {C} = R" using CR unfolding Q_def by blast
  have "P = insert B R" using B(1) unfolding R_def by blast
  then have e: "P = insert (insert a C) (Q - {C})" unfolding aC QC .
  have "(Q, C) \<in> (SIGMA Q:parts_of A (Suc j). Q)"
    using pQ cQ unfolding Q_def parts_of_def by simp
  moreover have "P = (\<lambda>x. insert (insert a (snd x)) (fst x - {snd x})) (Q, C)"
    using e by simp
  ultimately show ?thesis by (rule rev_image_eqI)
qed

lemma parts_of_cover:
  assumes fin: "finite A" and a: "a \<notin> A" and P: "P \<in> parts_of (insert a A) (Suc j)"
  shows "P \<in> insert {a} ` parts_of A j \<union>
     (\<lambda>x. insert (insert a (snd x)) (fst x - {snd x})) ` (SIGMA Q:parts_of A (Suc j). Q)"
proof -
  from P have p: "partition_on (insert a A) P" by (simp add: parts_of_def)
  then have "a \<in> \<Union>P" unfolding partition_on_def by blast
  then obtain B where B: "B \<in> P" "a \<in> B" by blast
  show ?thesis
  proof (cases "B = {a}")
    case True
    with parts_of_cover_single[OF fin a P] B(1) show ?thesis by blast
  next
    case False
    with parts_of_cover_other[OF fin a P B] show ?thesis by blast
  qed
qed

lemma parts_of_zero:
  assumes "finite A"
  shows "parts_of (insert a A) 0 = {}"
proof (rule ccontr)
  assume "parts_of (insert a A) 0 \<noteq> {}"
  then obtain P where p: "partition_on (insert a A) P" and c: "card P = 0"
    unfolding parts_of_def by blast
  from finite_elements[OF _ p] assms have "finite P" by simp
  with c have "P = {}" by simp
  with p show False unfolding partition_on_def by simp
qed

lemma card_sigma_parts:
  assumes fin: "finite A"
  shows "finite (SIGMA Q:parts_of A k. Q)"
    and "card (SIGMA Q:parts_of A k. Q) = k * card (parts_of A k)"
proof -
  have fq: "finite Q" if "Q \<in> parts_of A k" for Q
    using that finite_elements[OF fin, of Q] unfolding parts_of_def by simp
  show "finite (SIGMA Q:parts_of A k. Q)"
    by (rule finite_SigmaI[OF finite_parts_of[OF fin]]) (rule fq)
  have "card (SIGMA Q:parts_of A k. Q) = (\<Sum>Q\<in>parts_of A k. card Q)"
    by (rule card_SigmaI[OF finite_parts_of[OF fin]]) (simp add: fq)
  also have "\<dots> = (\<Sum>Q\<in>parts_of A k. k)"
    by (rule sum.cong[OF refl]) (simp add: parts_of_def)
  finally show "card (SIGMA Q:parts_of A k. Q) = k * card (parts_of A k)" by simp
qed

lemma card_parts_of:
  assumes "finite A"
  shows "card (parts_of A k) \<le> stirling2 (card A) k"
  using assms
proof (induction A arbitrary: k rule: finite_induct)
  case empty
  then show ?case by (cases k) (simp_all add: parts_of_empty)
next
  case (insert a A)
  show ?case
  proof (cases k)
    case 0
    with parts_of_zero[OF insert.hyps(1), of a] show ?thesis by simp
  next
    case (Suc j)
    let ?X = "insert {a} ` parts_of A j"
    let ?S = "SIGMA Q:parts_of A (Suc j). Q"
    let ?Y = "(\<lambda>x. insert (insert a (snd x)) (fst x - {snd x})) ` ?S"
    note sg = card_sigma_parts[OF insert.hyps(1), of "Suc j"]
    have fX: "finite ?X" using finite_parts_of[OF insert.hyps(1)] by simp
    have fY: "finite ?Y" using sg(1) by simp
    have "parts_of (insert a A) (Suc j) \<subseteq> ?X \<union> ?Y"
      using parts_of_cover[OF insert.hyps(1,2)] by blast
    then have "card (parts_of (insert a A) (Suc j)) \<le> card (?X \<union> ?Y)"
      using fX fY by (intro card_mono) simp_all
    also have "\<dots> \<le> card ?X + card ?Y" by (rule card_Un_le)
    also have "\<dots> \<le> card (parts_of A j) + card ?S"
      by (intro add_mono card_image_le finite_parts_of[OF insert.hyps(1)] sg(1))
    also have "\<dots> \<le> stirling2 (card A) j + Suc j * stirling2 (card A) (Suc j)"
      unfolding sg(2) by (intro add_mono mult_le_mono2 insert.IH)
    also have "\<dots> = stirling2 (card (insert a A)) (Suc j)"
      using insert.hyps by simp
    finally show ?thesis unfolding Suc .
  qed
qed

subsection \<open>A vertex whose removal keeps the graph connected\<close>

text \<open>
  \<open>conn_on S E\<close>: the vertices of \<open>S\<close> are connected by paths inside \<open>S\<close>.  A connected
  set grows by any neighbour, so a connected graph has connected vertex sets of every
  size, and one with at least two vertices has a vertex that can be removed.
\<close>

lemma path_crosses:
  assumes "(a, b) \<in> E\<^sup>*" and "a \<in> S" and "b \<notin> S"
  shows "\<exists>x y. x \<in> S \<and> y \<notin> S \<and> (x, y) \<in> E"
  using assms
proof (induction rule: rtrancl_induct)
  case base
  then show ?case by simp
next
  case (step y z)
  show ?case
  proof (cases "y \<in> S")
    case True
    with step.hyps(2) step.prems(2) show ?thesis by blast
  next
    case False
    from step.IH[OF step.prems(1) False] show ?thesis .
  qed
qed

definition conn_on :: "'a set \<Rightarrow> ('a \<times> 'a) set \<Rightarrow> bool" where
  "conn_on S E = (\<forall>u\<in>S. \<forall>v\<in>S. (u, v) \<in> (Restr E S)\<^sup>*)"

lemma conn_on_grow:
  assumes c: "conn_on S E" and s: "sym E" and x: "x \<in> S" and xy: "(x, y) \<in> E"
  shows "conn_on (insert y S) E"
proof -
  let ?R = "Restr E (insert y S)"
  have mono: "(Restr E S)\<^sup>* \<subseteq> ?R\<^sup>*" by (rule rtrancl_mono) blast
  have xyR: "(x, y) \<in> ?R" using x xy by blast
  have yxR: "(y, x) \<in> ?R" using x xy s by (auto dest: symD)
  have in_S: "(u, v) \<in> ?R\<^sup>*" if "u \<in> S" "v \<in> S" for u v
    using c that mono unfolding conn_on_def by blast
  have to_y: "(u, y) \<in> ?R\<^sup>*" if "u \<in> S" for u
    using in_S[OF that x] xyR by (rule rtrancl_into_rtrancl)
  have from_y: "(y, v) \<in> ?R\<^sup>*" if "v \<in> S" for v
    using yxR in_S[OF x that] by (rule converse_rtrancl_into_rtrancl)
  show ?thesis
    unfolding conn_on_def
  proof (intro ballI)
    fix u v assume "u \<in> insert y S" "v \<in> insert y S"
    then consider "u \<in> S" "v \<in> S" | "u \<in> S" "v = y" | "u = y" "v \<in> S" | "u = y" "v = y"
      by blast
    then show "(u, v) \<in> ?R\<^sup>*"
    proof cases
      case 1
      then show ?thesis by (rule in_S)
    next
      case 2
      with to_y show ?thesis by simp
    next
      case 3
      with from_y show ?thesis by simp
    next
      case 4
      then show ?thesis by simp
    qed
  qed
qed

lemma conn_subsets:
  assumes fin: "finite V" and f: "Field E \<subseteq> V" and s: "sym E" and c: "conn_on V E"
  shows "1 \<le> k \<Longrightarrow> k \<le> card V \<Longrightarrow> \<exists>S. S \<subseteq> V \<and> card S = k \<and> conn_on S E"
proof (induction k)
  case 0
  then show ?case by simp
next
  case (Suc k)
  show ?case
  proof (cases "k = 0")
    case True
    from Suc.prems(2) have "V \<noteq> {}" by auto
    then obtain u where "u \<in> V" by blast
    then have "{u} \<subseteq> V \<and> card {u} = Suc k \<and> conn_on {u} E"
      using True by (simp add: conn_on_def)
    then show ?thesis by blast
  next
    case False
    with Suc obtain S where S: "S \<subseteq> V" "card S = k" "conn_on S E" by auto
    from S(2) False have "S \<noteq> {}" by auto
    then obtain a where a: "a \<in> S" by blast
    from S(1) fin have fS: "finite S" by (rule finite_subset)
    have "S \<noteq> V" using S(2) Suc.prems(2) by auto
    with S(1) obtain b where b: "b \<in> V" "b \<notin> S" by blast
    from c a b S(1) have "(a, b) \<in> (Restr E V)\<^sup>*" unfolding conn_on_def by blast
    moreover have "Restr E V \<subseteq> E" by blast
    ultimately have "(a, b) \<in> E\<^sup>*" using rtrancl_mono by blast
    from path_crosses[OF this a b(2)] obtain x y where xy: "x \<in> S" "y \<notin> S" "(x, y) \<in> E" by blast
    from xy(3) f have yV: "y \<in> V" unfolding Field_def by blast
    have "insert y S \<subseteq> V" using S(1) yV by simp
    moreover have "card (insert y S) = Suc k" using fS xy(2) S(2) by simp
    moreover have "conn_on (insert y S) E" by (rule conn_on_grow[OF S(3) s xy(1,3)])
    ultimately show ?thesis by blast
  qed
qed

lemma non_cut_vertex:
  assumes fin: "finite V" and f: "Field E \<subseteq> V" and s: "sym E" and c: "conn_on V E"
    and n: "2 \<le> card V"
  shows "\<exists>v\<in>V. conn_on (V - {v}) E \<and> (\<exists>w\<in>V - {v}. (w, v) \<in> E)"
proof -
  from n have "1 \<le> card V - 1" "card V - 1 \<le> card V" by simp_all
  from conn_subsets[OF fin f s c this] obtain S where
    S: "S \<subseteq> V" "card S = card V - 1" "conn_on S E" by blast
  from S(1) fin have fS: "finite S" by (rule finite_subset)
  have "card (V - S) = 1" using S(1,2) fin fS n by (simp add: card_Diff_subset)
  then obtain v where v: "V - S = {v}" by (auto simp: card_1_singleton_iff)
  then have vV: "v \<in> V" and SV: "S = V - {v}" using S(1) by blast+
  from S(2) n have "S \<noteq> {}" by auto
  then obtain a where a: "a \<in> S" by blast
  have vS: "v \<notin> S" using SV by simp
  from c a vV S(1) have "(a, v) \<in> (Restr E V)\<^sup>*" unfolding conn_on_def by blast
  moreover have "Restr E V \<subseteq> E" by blast
  ultimately have "(a, v) \<in> E\<^sup>*" using rtrancl_mono by blast
  from path_crosses[OF this a vS] obtain x y where xy: "x \<in> S" "y \<notin> S" "(x, y) \<in> E" by blast
  from xy(3) f have "y \<in> V" unfolding Field_def by blast
  with xy(2) SV have "y = v" by blast
  with xy S(3) SV vV show ?thesis by blast
qed

subsection \<open>The levels of a graph and of the graph without such a vertex\<close>

text \<open>
  A partition of level \<open>i\<close> of the smaller graph, with the block \<open>{v}\<close> added, is a
  partition of level \<open>i\<close> of the graph; with \<open>v\<close> put into a block that holds a neighbour
  of \<open>v\<close>, it is a partition of level \<open>i + 1\<close>.  The two maps are injective and their
  images are disjoint, which gives the recurrence of the binomial coefficients as a
  lower bound.
\<close>

lemma level_parts_blocks:
  assumes "finite V" and "P \<in> level_parts V E i" and "B \<in> P"
  shows "B \<subseteq> V" and "B \<noteq> {}"
proof -
  from level_parts_partition[OF assms(1,2)] have p: "\<Union>P = V" "{} \<notin> P"
    unfolding partition_on_def by simp_all
  from assms(3) have "B \<subseteq> \<Union>P" by (rule Union_upper)
  with p(1) show "B \<subseteq> V" by simp
  from p(2) assms(3) show "B \<noteq> {}" by metis
qed

lemma level_parts_SucI:
  "Q \<in> level_parts V E i \<Longrightarrow> (s, t) \<in> qrel E Q
    \<Longrightarrow> merge_part s t Q \<in> level_parts V E (Suc i)"
  unfolding level_parts_Suc in_next_parts by (intro bexI[of _ Q] exI[of _ s] exI[of _ t]) simp_all

lemma level_parts_SucE:
  assumes "P \<in> level_parts V E (Suc i)"
  obtains Q s t where "Q \<in> level_parts V E i" "(s, t) \<in> qrel E Q" "P = merge_part s t Q"
  using assms unfolding level_parts_Suc in_next_parts by (elim bexE exE conjE)

lemma qrel_mono_insert:
  assumes "(s, t) \<in> qrel E' Q" and "E' \<subseteq> E"
  shows "(s, t) \<in> qrel E (insert B Q)"
proof -
  from assms(1) have st: "s \<in> Q" "t \<in> Q" "s \<noteq> t" and "\<exists>u\<in>s. \<exists>w\<in>t. (u, w) \<in> E'"
    unfolding qrel_def by simp_all
  then obtain u w where uw: "u \<in> s" "w \<in> t" "(u, w) \<in> E'" by (elim bexE)
  from uw(3) assms(2) have "(u, w) \<in> E" by (rule subsetD[rotated])
  with uw(1,2) have "\<exists>u\<in>s. \<exists>w\<in>t. (u, w) \<in> E" by (intro bexI)
  with st show ?thesis unfolding qrel_def by simp
qed


lemma merge_part_insert:
  assumes "B \<noteq> s" and "B \<noteq> t"
  shows "merge_part s t (insert B Q) = insert B (merge_part s t Q)"
proof -
  from assms have "insert B Q - {s, t} = insert B (Q - {s, t})" by (simp add: insert_Diff_if)
  then show ?thesis unfolding merge_part_def by (simp add: insert_commute)
qed

lemma level_parts_not_in:
  assumes "finite V" and "v \<notin> V" and "P \<in> level_parts V E i"
  shows "C \<in> P \<Longrightarrow> v \<notin> C" and "{v} \<notin> P"
proof -
  show c: "v \<notin> C" if "C \<in> P" for C
    using level_parts_blocks(1)[OF assms(1,3) that] assms(2) by (rule contra_subsetD)
  from c[of "{v}"] show "{v} \<notin> P" by (rule_tac notI) simp
qed

lemma level_parts_extend:
  assumes fin: "finite V" and v: "v \<notin> V" and sub: "E' \<subseteq> E"
  shows "P \<in> level_parts V E' i \<Longrightarrow> insert {v} P \<in> level_parts (insert v V) E i"
proof (induction i arbitrary: P)
  case 0
  then show ?case by simp
next
  case (Suc i)
  from Suc.prems obtain Q s t where Q: "Q \<in> level_parts V E' i" and q: "(s, t) \<in> qrel E' Q"
    and P: "P = merge_part s t Q"
    by (rule level_parts_SucE)
  from q have st: "s \<in> Q" "t \<in> Q" unfolding qrel_def by simp_all
  from level_parts_not_in(2)[OF fin v Q] st have ne: "{v} \<noteq> s" "{v} \<noteq> t" by metis+
  from q sub have q': "(s, t) \<in> qrel E (insert {v} Q)" by (rule qrel_mono_insert)
  from level_parts_SucI[OF Suc.IH[OF Q] q']
  show ?case unfolding P merge_part_insert[OF ne] .
qed

lemma level_parts_attach:
  assumes fin: "finite V" and v: "v \<notin> V" and sub: "E' \<subseteq> E" and s: "sym E"
    and P: "P \<in> level_parts V E' i" and B: "B \<in> P" and w: "w \<in> B" "(w, v) \<in> E"
  shows "insert (insert v B) (P - {B}) \<in> level_parts (insert v V) E (Suc i)"
proof -
  note ext = level_parts_extend[OF fin v sub P]
  note nv = level_parts_not_in(2)[OF fin v P]
  from nv B have vB: "{v} \<noteq> B" by metis
  from s w(2) have "(v, w) \<in> E" by (rule symD)
  with w(1) have "\<exists>u\<in>{v}. \<exists>x\<in>B. (u, x) \<in> E" by (intro bexI[of _ v] bexI[of _ w]) simp_all
  with B vB have q: "({v}, B) \<in> qrel E (insert {v} P)" unfolding qrel_def by simp
  from nv have "insert {v} P - {{v}, B} = P - {B}" by (simp add: insert_Diff_if)
  then have "merge_part {v} B (insert {v} P) = insert (insert v B) (P - {B})"
    unfolding merge_part_def by simp
  with level_parts_SucI[OF ext q] show ?thesis by simp
qed


lemma level_parts_block_of:
  assumes "finite V" and "P \<in> level_parts V E i" and "w \<in> V"
  shows "\<exists>B. B \<in> P \<and> w \<in> B"
proof -
  from level_parts_partition[OF assms(1,2)] have "\<Union>P = V" unfolding partition_on_def by simp
  with assms(3) have "w \<in> \<Union>P" by simp
  then show ?thesis by (simp only: Union_iff) (elim bexE, intro exI conjI)
qed

lemma level_parts_step_bound:
  assumes fin: "finite V" and v: "v \<notin> V" and sub: "E' \<subseteq> E" and s: "sym E"
    and w: "w \<in> V" "(w, v) \<in> E"
  shows "card (level_parts V E' (Suc i)) + card (level_parts V E' i)
     \<le> card (level_parts (insert v V) E (Suc i))"
proof -
  define A where "A = level_parts V E' (Suc i)"
  define B where "B = level_parts V E' i"
  define L where "L = level_parts (insert v V) E (Suc i)"
  have "\<forall>P\<in>B. \<exists>C. C \<in> P \<and> w \<in> C"
    unfolding B_def using level_parts_block_of[OF fin _ w(1)] by (intro ballI)
  then have "\<exists>b. \<forall>P\<in>B. b P \<in> P \<and> w \<in> b P" by (rule bchoice)
  then obtain b where b: "\<And>P. P \<in> B \<Longrightarrow> b P \<in> P" "\<And>P. P \<in> B \<Longrightarrow> w \<in> b P" by metis
  define g where "g P = insert (insert v (b P)) (P - {b P})" for P
  define X where "X = insert {v} ` A"
  define Y where "Y = g ` B"
  have nvA: "{v} \<notin> P" if "P \<in> A" for P
    using level_parts_not_in(2)[OF fin v] that unfolding A_def .
  have nvB: "{v} \<notin> P" if "P \<in> B" for P
    using level_parts_not_in(2)[OF fin v] that unfolding B_def .
  have nvC: "v \<notin> C" if "P \<in> B" "C \<in> P" for P C
    using level_parts_not_in(1)[OF fin v] that unfolding B_def .
  have X: "X \<subseteq> L"
  proof
    fix x assume "x \<in> X"
    then obtain P where P: "P \<in> A" "x = insert {v} P" unfolding X_def by (elim imageE)
    from level_parts_extend[OF fin v sub] P(1) show "x \<in> L" unfolding P(2) A_def L_def .
  qed
  have Y: "Y \<subseteq> L"
  proof
    fix x assume "x \<in> Y"
    then obtain P where P: "P \<in> B" "x = g P" unfolding Y_def by (elim imageE)
    from P(1) have P': "P \<in> level_parts V E' i" unfolding B_def .
    from level_parts_attach[OF fin v sub s P' b(1)[OF P(1)] b(2)[OF P(1)] w(2)]
    show "x \<in> L" unfolding P(2) g_def L_def .
  qed
  have injX: "inj_on (insert {v}) A"
  proof (rule inj_onI)
    fix P Q assume P: "P \<in> A" and Q: "Q \<in> A" and e: "insert {v} P = insert {v} Q"
    have "P = insert {v} P - {{v}}" using nvA[OF P] by simp
    also have "\<dots> = insert {v} Q - {{v}}" by (simp only: e)
    also have "\<dots> = Q" using nvA[OF Q] by simp
    finally show "P = Q" .
  qed
  have ginv: "(\<lambda>C. C - {v}) ` g P = P" if P: "P \<in> B" for P
  proof -
    have id: "C - {v} = C" if "C \<in> P" for C using nvC[OF P that] by simp
    have "(\<lambda>C. C - {v}) ` (P - {b P}) = (\<lambda>C. C) ` (P - {b P})"
      by (rule image_cong) (simp_all add: id)
    then have r: "(\<lambda>C. C - {v}) ` (P - {b P}) = P - {b P}" by simp
    have h: "insert v (b P) - {v} = b P" using nvC[OF P b(1)[OF P]] by simp
    have "(\<lambda>C. C - {v}) ` g P = insert (b P) (P - {b P})"
      unfolding g_def image_insert r h ..
    also have "\<dots> = P" using b(1)[OF P] by (simp add: insert_absorb)
    finally show ?thesis .
  qed
  have injY: "inj_on g B"
  proof (rule inj_onI)
    fix P Q assume P: "P \<in> B" and Q: "Q \<in> B" and e: "g P = g Q"
    have "P = (\<lambda>C. C - {v}) ` g P" by (simp only: ginv[OF P])
    also have "\<dots> = (\<lambda>C. C - {v}) ` g Q" by (simp only: e)
    also have "\<dots> = Q" by (rule ginv[OF Q])
    finally show "P = Q" .
  qed
  have disj: "X \<inter> Y = {}"
  proof (rule ccontr)
    assume "X \<inter> Y \<noteq> {}"
    then obtain x where "x \<in> X" "x \<in> Y" by (simp only: ex_in_conv[symmetric] Int_iff) (elim exE conjE)
    then obtain P Q where P: "P \<in> A" "x = insert {v} P" and Q: "Q \<in> B" "x = g Q"
      unfolding X_def Y_def by (elim imageE)
    have "{v} \<in> insert {v} P" by (rule insertI1)
    with P(2) Q(2) have "{v} \<in> g Q" by metis
    then have "{v} = insert v (b Q) \<or> {v} \<in> Q" unfolding g_def by (simp only: insert_iff Diff_iff) metis
    then show False
    proof
      assume "{v} = insert v (b Q)"
      moreover have "b Q \<subseteq> insert v (b Q)" by (rule subset_insertI)
      ultimately have "b Q \<subseteq> {v}" by simp
      moreover have "v \<notin> b Q" by (rule nvC[OF Q(1) b(1)[OF Q(1)]])
      ultimately have "b Q = {}" by (simp add: subset_singleton_iff) (metis insertI1)
      with b(2)[OF Q(1)] show False by simp
    next
      assume "{v} \<in> Q"
      with nvB[OF Q(1)] show False by simp
    qed
  qed
  have fA: "finite A" and fB: "finite B" unfolding A_def B_def by (rule finite_level_parts[OF fin])+
  have fL: "finite L" unfolding L_def by (rule finite_level_parts) (simp add: fin)
  have "card A + card B = card X + card Y"
    unfolding X_def Y_def by (simp only: card_image[OF injX] card_image[OF injY])
  also have "\<dots> = card (X \<union> Y)"
    by (rule card_Un_disjoint[symmetric]) (simp_all add: X_def Y_def fA fB disj[unfolded X_def Y_def])
  also have "\<dots> \<le> card L" by (rule card_mono[OF fL]) (simp add: X Y)
  finally show ?thesis unfolding A_def B_def L_def .
qed

lemma conn_on_Restr:
  "conn_on S (Restr E S) = conn_on S E"
proof -
  have "Restr (Restr E S) S = Restr E S" by (simp add: Int_assoc)
  then show ?thesis unfolding conn_on_def by simp
qed

lemma level_parts_lower:
  "finite V \<Longrightarrow> V \<noteq> {} \<Longrightarrow> Field E \<subseteq> V \<Longrightarrow> sym E \<Longrightarrow> conn_on V E
    \<Longrightarrow> (card V - 1) choose i \<le> card (level_parts V E i)"
proof (induction "card V" arbitrary: V E i)
  case 0
  then show ?case by simp
next
  case (Suc n)
  show ?case
  proof (cases i)
    case 0
    then show ?thesis by simp
  next
    case (Suc j)
    show ?thesis
    proof (cases "2 \<le> card V")
      case False
      with Suc.hyps(2) have "card V - 1 = 0" by simp
      then show ?thesis unfolding \<open>i = Suc j\<close> by simp
    next
      case True
      from non_cut_vertex[OF Suc.prems(1,3,4,5) True]
      obtain v w where v: "v \<in> V" and c: "conn_on (V - {v}) E" and w: "w \<in> V - {v}" "(w, v) \<in> E"
        by (elim bexE conjE)
      define V' where "V' = V - {v}"
      define E' where "E' = Restr E V'"
      have V: "V = insert v V'" using v unfolding V'_def by (simp add: insert_absorb)
      have fin: "finite V'" unfolding V'_def using Suc.prems(1) by simp
      have nv: "v \<notin> V'" unfolding V'_def by simp
      have cV: "card V' = n" using Suc.hyps(2) v Suc.prems(1) unfolding V'_def by simp
      have ne: "V' \<noteq> {}" using w(1) unfolding V'_def by (rule_tac notI) simp
      have sub: "E' \<subseteq> E" unfolding E'_def by (rule Int_lower1)
      have f': "Field E' \<subseteq> V'" unfolding E'_def Field_def by (rule subsetI) (simp add: Domain_iff Range_iff, metis)
      have s': "sym E'" unfolding E'_def using Suc.prems(4) by (simp add: sym_def)
      have c': "conn_on V' E'" unfolding E'_def conn_on_Restr using c unfolding V'_def .
      note IH = Suc.hyps(1)[OF cV[symmetric] fin ne f' s' c']
      have w': "w \<in> V'" using w(1) unfolding V'_def .
      have n1: "n = Suc (n - 1)" using True Suc.hyps(2) by simp
      have "card V - 1 = n" using Suc.hyps(2) by simp
      then have "(card V - 1) choose i = n choose Suc j"
        unfolding \<open>i = Suc j\<close> by simp
      also have "\<dots> = Suc (n - 1) choose Suc j" using n1 by simp
      also have "\<dots> = ((n - 1) choose j) + ((n - 1) choose Suc j)" by (rule binomial_Suc_Suc)
      also have "\<dots> = ((card V' - 1) choose Suc j) + ((card V' - 1) choose j)" unfolding cV by simp
      also have "\<dots> \<le> card (level_parts V' E' (Suc j)) + card (level_parts V' E' j)"
        by (rule add_mono) (rule IH)+
      also have "\<dots> \<le> card (level_parts (insert v V') E (Suc j))"
        by (rule level_parts_step_bound[OF fin nv sub Suc.prems(4) w' w(2)])
      finally show ?thesis unfolding V[symmetric] \<open>i = Suc j\<close> .
    qed
  qed
qed

subsection \<open>The counts of the levels that \<open>build\<close> returns\<close>

lemma open_level_compress_num:
  assumes "open_level g i l"
  shows "num_partitions (compress l) = Inr (card (level_parts (gkeys g) (grel g) i))"
proof -
  from assms obtain ns where ns: "l_nodes l = Some ns" "good_nodes g ns"
    "gkeys ` set ns = level_parts (gkeys g) (grel g) i"
    unfolding open_level_def by (elim exE conjE)
  from good_nodes_length[OF ns(2)] ns(1,3) show ?thesis
    by (simp add: compress_def num_partitions_def)
qed

lemma level_parts_upper:
  assumes fin: "finite V" and i: "i \<le> card V"
  shows "card (level_parts V E i) \<le> stirling2 (card V) (card V - i)"
proof -
  have "level_parts V E i \<subseteq> parts_of V (card V - i)"
  proof
    fix P assume "P \<in> level_parts V E i"
    from level_parts_partition[OF fin this] have "partition_on V P" "card P + i = card V" by simp_all
    then have "partition_on V P" "card P = card V - i" by simp_all
    then show "P \<in> parts_of V (card V - i)" unfolding parts_of_def by simp
  qed
  then have "card (level_parts V E i) \<le> card (parts_of V (card V - i))"
    by (rule card_mono[OF finite_parts_of[OF fin]])
  also have "\<dots> \<le> stirling2 (card V) (card V - i)" by (rule card_parts_of[OF fin])
  finally show ?thesis .
qed

lemma sympy_binomial_level:
  assumes "i < n"
  shows "sympy_binomial (int n - 1) (int n - int i - 1) = int ((n - 1) choose i)"
proof -
  from assms have a: "int n - 1 = int (n - 1)" and b: "int n - int i - 1 = int (n - 1 - i)"
    by simp_all
  from assms have "i \<le> n - 1" by simp
  then have c: "(n - 1) choose (n - 1 - i) = (n - 1) choose i"
    by (rule binomial_symmetric[symmetric])
  have "sympy_binomial (int (n - 1)) (int (n - 1 - i)) = int ((n - 1) choose (n - 1 - i))"
    unfolding sympy_binomial_def by simp
  then show ?thesis unfolding a b c .
qed

lemma sympy_binomial_beyond:
  assumes "n \<le> i"
  shows "sympy_binomial (int n - 1) (int n - int i - 1) = 0"
proof -
  from assms have "int n - int i - 1 < 0" by simp
  then show ?thesis unfolding sympy_binomial_def by simp
qed

lemma sympy_stirling_level:
  assumes "i \<le> n"
  shows "sympy_stirling n (int n - int i) = int (stirling2 n (n - i))"
proof -
  from assms have a: "int n - int i = int (n - i)" by simp
  have "\<not> (int (n - i) < 0 \<or> int (n - i) > int n)" by simp
  then have "sympy_stirling n (int (n - i)) = int (stirling2 n (n - i))"
    unfolding sympy_stirling_def by (simp only: if_False nat_int)
  then show ?thesis unfolding a .
qed

lemma graph_conn_on:
  assumes wf: "wf_graph g" and cg: "connected_graph g"
  shows "conn_on (gkeys g) (grel g)"
proof -
  from wf have f: "Field (grel g) \<subseteq> gkeys g" unfolding wf_graph_def by simp
  have "grel g \<subseteq> gkeys g \<times> gkeys g"
  proof (rule subrelI)
    fix x y assume xy: "(x, y) \<in> grel g"
    from xy have "x \<in> Field (grel g)" by (rule FieldI1)
    moreover from xy have "y \<in> Field (grel g)" by (rule FieldI2)
    ultimately show "(x, y) \<in> gkeys g \<times> gkeys g" using f by (simp add: subset_iff)
  qed
  then have r: "Restr (grel g) (gkeys g) = grel g" by (rule Int_absorb2)
  from cg show ?thesis unfolding conn_on_def connected_graph_def r .
qed

lemma level_counts_bounds:
  assumes sg: "simple_graph g" and cg: "connected_graph g" and n: "order g \<noteq> 0"
    and i: "i \<le> last_index (order g)"
  shows "sympy_binomial (int (order g) - 1) (int (order g) - int i - 1)
           \<le> int (card (level_parts (gkeys g) (grel g) i))"
    and "int (card (level_parts (gkeys g) (grel g) i))
           \<le> sympy_stirling (order g) (int (order g) - int i)"
proof -
  from sg have wf: "wf_graph g" by (simp add: simple_graph_def)
  have fin: "finite (gkeys g)" by (rule finite_gkeys)
  note cV = card_gkeys[OF wf]
  have ne: "gkeys g \<noteq> {}"
  proof
    assume "gkeys g = {}"
    then have "card (gkeys g) = 0" by simp
    with cV n show False by simp
  qed
  from wf have f: "Field (grel g) \<subseteq> gkeys g" and s: "sym (grel g)"
    unfolding wf_graph_def by simp_all
  note c = graph_conn_on[OF wf cg]
  from i n have iV: "i \<le> order g" unfolding last_index_def by (simp split: if_splits)
  note lower = level_parts_lower[OF fin ne f s c, of i, unfolded cV]
  note upper = level_parts_upper[OF fin, of i "grel g", unfolded cV, OF iV]
  show "sympy_binomial (int (order g) - 1) (int (order g) - int i - 1)
           \<le> int (card (level_parts (gkeys g) (grel g) i))"
  proof (cases "i < order g")
    case True
    from lower show ?thesis unfolding sympy_binomial_level[OF True] by (simp only: of_nat_le_iff)
  next
    case False
    then have "order g \<le> i" by simp
    then show ?thesis by (simp only: sympy_binomial_beyond of_nat_0_le_iff)
  qed
  from upper show "int (card (level_parts (gkeys g) (grel g) i))
           \<le> sympy_stirling (order g) (int (order g) - int i)"
    unfolding sympy_stirling_level[OF iV] by (simp only: of_nat_le_iff)
qed

lemma built_level_count:
  assumes len: "length ls0 = Suc m"
    and d: "\<forall>i<m. done_level g c i (ls0 ! i)"
    and o: "open_level g m (last ls0)"
    and i: "i \<le> m"
  shows "num_partitions ((if c then butlast ls0 @ [compress (last ls0)] else ls0) ! i)
     = Inr (card (level_parts (gkeys g) (grel g) i))"
proof (cases "i < m")
  case True
  with len have "(butlast ls0 @ [compress (last ls0)]) ! i = ls0 ! i"
    by (simp add: nth_append nth_butlast)
  then have "(if c then butlast ls0 @ [compress (last ls0)] else ls0) ! i = ls0 ! i" by simp
  with d True show ?thesis by (simp add: done_level_def)
next
  case False
  with i have im: "i = m" by simp
  from len have l: "last ls0 = ls0 ! m" by (cases ls0 rule: rev_cases) (simp_all add: nth_append)
  from len have b: "(butlast ls0 @ [compress (last ls0)]) ! m = compress (last ls0)"
    by (simp add: nth_append)
  note op = open_level_num[OF o]
  show ?thesis
  proof (cases c)
    case True
    then show ?thesis unfolding im using b open_level_compress_num[OF o] by simp
  next
    case False
    then show ?thesis unfolding im using l op by simp
  qed
qed

lemma build_level_bounds:
  assumes sg: "simple_graph g" and cg: "connected_graph g" and n: "order g \<noteq> 0"
    and sp: "s_graph sp = g"
  shows "\<exists>ls sp'. build sp = (Inr ls, sp') \<and>
     (\<forall>i<length ls. \<exists>k. num_partitions_at sp' (int i) = Inr k \<and>
        num_k_partitions_lb sp' (int i) \<le> int k \<and> int k \<le> num_k_partitions_ub sp' (int i))"
proof -
  from build_connected[OF sg cg n sp] obtain ls0 where
    b: "build sp =
       (Inr (if s_compress sp then butlast ls0 @ [compress (last ls0)] else ls0),
        sp\<lparr>s_levels := Some (if s_compress sp then butlast ls0 @ [compress (last ls0)] else ls0)\<rparr>)"
    and len: "length ls0 = Suc (last_index (order g))"
    and d: "\<forall>i<last_index (order g). done_level g (s_compress sp) i (ls0 ! i)"
    and o: "open_level g (last_index (order g)) (last ls0)"
    by (elim exE conjE)
  define ls where "ls = (if s_compress sp then butlast ls0 @ [compress (last ls0)] else ls0)"
  define sp' where "sp' = sp\<lparr>s_levels := Some ls\<rparr>"
  have ll: "length ls = Suc (last_index (order g))" unfolding ls_def using len by simp
  have nn: "num_nodes sp' = order g" unfolding sp'_def num_nodes_def using sp by simp
  have "\<exists>k. num_partitions_at sp' (int i) = Inr k \<and>
        num_k_partitions_lb sp' (int i) \<le> int k \<and> int k \<le> num_k_partitions_ub sp' (int i)"
    if i: "i < length ls" for i
  proof -
    from i ll have il: "i \<le> last_index (order g)" by simp
    from i have "py_index ls (int i) = Inr (ls ! i)" unfolding py_index_def by simp
    then have "num_partitions_at sp' (int i) = num_partitions (ls ! i)"
      unfolding num_partitions_at_def sp'_def by simp
    also have "\<dots> = Inr (card (level_parts (gkeys g) (grel g) i))"
      unfolding ls_def by (rule built_level_count[OF len d o il])
    finally have 1: "num_partitions_at sp' (int i) = Inr (card (level_parts (gkeys g) (grel g) i))" .
    note bd = level_counts_bounds[OF sg cg n il]
    have 2: "num_k_partitions_lb sp' (int i) \<le> int (card (level_parts (gkeys g) (grel g) i))"
      unfolding num_k_partitions_lb_def nn by (rule bd(1))
    have 3: "int (card (level_parts (gkeys g) (grel g) i)) \<le> num_k_partitions_ub sp' (int i)"
      unfolding num_k_partitions_ub_def stirling_def nn by (rule bd(2))
    from 1 2 3 show ?thesis by (intro exI conjI)
  qed
  then have "\<forall>i<length ls. \<exists>k. num_partitions_at sp' (int i) = Inr k \<and>
        num_k_partitions_lb sp' (int i) \<le> int k \<and> int k \<le> num_k_partitions_ub sp' (int i)"
    by (intro allI impI)
  moreover from b have "build sp = (Inr ls, sp')" unfolding ls_def sp'_def .
  ultimately show ?thesis by (intro exI conjI)
qed

subsection \<open>Graphs with a self-loop, and the graph without nodes\<close>

text \<open>
  Merging the two ends of a self-loop removes no vertex, so the assertion of \<open>expand\<close>
  fails for that edge, and \<open>build\<close> raises on every connected graph that has one.  On the
  graph without nodes the level constructor raises.
\<close>

lemma add_children_error:
  "Inl e \<in> set cs \<Longrightarrow> \<exists>e'. add_children cs nxt = Inl e'"
proof (induction cs arbitrary: nxt)
  case Nil
  then show ?case by simp
next
  case (Cons c cs)
  show ?case
  proof (cases c)
    case (Inl a)
    then show ?thesis by simp
  next
    case (Inr new_node)
    with Cons.prems have m: "Inl e \<in> set cs" by auto
    show ?thesis
    proof (cases "level_add_node nxt new_node")
      case (Inl a)
      with Inr show ?thesis by simp
    next
      case r: (Inr nxt')
      from Cons.IH[OF m, of nxt'] Inr r show ?thesis by simp
    qed
  qed
qed

lemma symcl_loop: "(l, l) \<in> symcl R \<Longrightarrow> (l, l) \<in> R"
  by (simp add: symcl_def)

lemma merge_img_loop: "merge_img (l, l) l e = e"
  by (cases e) (simp add: merge_img_def)

lemma expand_edge_loop:
  assumes wf: "wf_graph nd" and l: "(l, l) \<in> set (edges nd)"
    and cover: "\<And>u. u \<in> gkeys nd \<Longrightarrow> u \<noteq> l \<Longrightarrow> \<exists>x. (u, x) \<in> grel nd"
  shows "expand_edge nd (l, l) = Inl AssertionError"
proof -
  define h where "h = merge_edges (l, l) l (edges nd) (add_node [] l)"
  note g = grel_symcl_edges[OF wf]
  from wf have f: "Field (grel nd) \<subseteq> gkeys nd" by (simp add: wf_graph_def)
  have w0: "wf_graph (add_node [] l)" by (intro wf_graph_add_node wf_graph_Nil)
  note mp = merge_edges_props[of "(l, l)" l "edges nd" "add_node [] l"]
  from mp w0 have wh: "wf_graph h" unfolding h_def by simp
  have im: "merge_img (l, l) l ` (set (edges nd) - {(l, l)}) = set (edges nd) - {(l, l)}"
    by (simp add: merge_img_loop)
  have k0: "gkeys (add_node [] l) = {l}" by (simp add: add_node_def has_node_def gkeys_def)
  from mp have kh: "gkeys h = insert l (Field (set (edges nd) - {(l, l)}))"
    unfolding h_def im k0 by simp
  have ll: "l \<in> gkeys nd"
  proof -
    from l have "(l, l) \<in> grel nd" unfolding g symcl_def by simp
    then have "l \<in> Field (grel nd)" by (rule FieldI1)
    with f show ?thesis by (rule subsetD)
  qed
  have "gkeys h = gkeys nd"
  proof (rule set_eqI, rule iffI)
    fix u assume "u \<in> gkeys h"
    then have "u = l \<or> u \<in> Field (set (edges nd) - {(l, l)})" unfolding kh by simp
    then show "u \<in> gkeys nd"
    proof
      assume "u = l" with ll show ?thesis by simp
    next
      assume "u \<in> Field (set (edges nd) - {(l, l)})"
      moreover have "Field (set (edges nd) - {(l, l)}) \<subseteq> Field (set (edges nd))"
        by (rule mono_Field) (rule Diff_subset)
      ultimately have "u \<in> Field (set (edges nd))" by (rule subsetD[rotated])
      then have "u \<in> Field (grel nd)" unfolding g symcl_def by (simp add: Field_Un)
      with f show ?thesis by (rule subsetD)
    qed
  next
    fix u assume u: "u \<in> gkeys nd"
    show "u \<in> gkeys h"
    proof (cases "u = l")
      case True
      then show ?thesis unfolding kh by simp
    next
      case False
      from cover[OF u False] obtain x where "(u, x) \<in> grel nd" by (elim exE)
      then have "(u, x) \<in> set (edges nd) \<or> (x, u) \<in> set (edges nd)"
        unfolding g symcl_def by simp
      then have "u \<in> Field (set (edges nd) - {(l, l)})"
      proof
        assume "(u, x) \<in> set (edges nd)"
        with False have "(u, x) \<in> set (edges nd) - {(l, l)}" by simp
        then show ?thesis by (rule FieldI1)
      next
        assume "(x, u) \<in> set (edges nd)"
        with False have "(x, u) \<in> set (edges nd) - {(l, l)}" by simp
        then show ?thesis by (rule FieldI2)
      qed
      then show ?thesis unfolding kh by simp
    qed
  qed
  then have "order h = order nd" using card_gkeys[OF wh] card_gkeys[OF wf] by simp
  then have "int (order h) \<noteq> int (order nd) - 1" by simp
  then show ?thesis unfolding expand_edge_def h_def by (simp add: Let_def)
qed


lemma build_self_loop:
  assumes wf: "wf_graph g" and cg: "connected_graph g" and lp: "(v, v) \<in> grel g"
    and sp: "s_graph sp = g"
  shows "\<exists>e. build sp = (Inl e, sp)"
proof -
  note g = grel_symcl_edges[OF wf]
  from wf have f: "Field (grel g) \<subseteq> gkeys g" by (simp add: wf_graph_def)
  from lp have "v \<in> Field (grel g)" by (rule FieldI1)
  with f have vk: "v \<in> gkeys g" by (rule subsetD)
  have n: "order g \<noteq> 0"
  proof
    assume "order g = 0"
    then have "card (gkeys g) = 0" using card_gkeys[OF wf] by simp
    then have "gkeys g = {}" by simp
    with vk show False by simp
  qed
  from SearchSpaceLevel_init_graph[OF n] obtain nd where
    nd: "SearchSpaceNode_init id_lt freeze_id g = Inr nd" and
    l0: "SearchSpaceLevel_init (Some g) None =
       Inr \<lparr>l_nodes = Some [nd], l_level = 0, l_num_partitions = None, l_next = False, l_previous = False\<rparr>"
    by (elim exE conjE)
  define first_level :: "'a SearchSpaceLevel" where
    "first_level = \<lparr>l_nodes = Some [nd], l_level = 0, l_num_partitions = None, l_next = False, l_previous = False\<rparr>"
  note wn = SearchSpaceNode_init_wf[OF nd]
  note gn = grel_symcl_edges[OF wn]
  note pk = SearchSpaceNode_init_props(1)[OF nd]
  note pr = SearchSpaceNode_init_props(2)[OF nd]
  have img: "(freeze_id a, freeze_id b) \<in> grel nd" if "(a, b) \<in> grel g" for a b
  proof -
    from that have "(a, b) \<in> set (edges g) \<or> (b, a) \<in> set (edges g)" unfolding g symcl_def by simp
    then show ?thesis
    proof
      assume "(a, b) \<in> set (edges g)"
      then have "map_prod freeze_id freeze_id (a, b) \<in> map_prod freeze_id freeze_id ` set (edges g)"
        by (rule imageI)
      then show ?thesis unfolding pr symcl_def by simp
    next
      assume "(b, a) \<in> set (edges g)"
      then have "map_prod freeze_id freeze_id (b, a) \<in> map_prod freeze_id freeze_id ` set (edges g)"
        by (rule imageI)
      then show ?thesis unfolding pr symcl_def by simp
    qed
  qed
  from img[OF lp] have "(freeze_id v, freeze_id v) \<in> symcl (set (edges nd))" unfolding gn .
  then have le: "(freeze_id v, freeze_id v) \<in> set (edges nd)" by (rule symcl_loop)
  have cover: "\<exists>x. (u, x) \<in> grel nd" if u: "u \<in> gkeys nd" and ne: "u \<noteq> freeze_id v" for u
  proof -
    from edges_endpoints_closed[OF wf_graph_closed[OF wf]]
    have "gkeys g \<union> fst ` set (edges g) \<union> snd ` set (edges g) = gkeys g" by blast
    with pk have "gkeys nd = freeze_id ` gkeys g" by simp
    with u have "u \<in> freeze_id ` gkeys g" by simp
    then obtain u' where u': "u' \<in> gkeys g" "u = freeze_id u'" by (elim imageE)
    from ne u'(2) have "u' \<noteq> v" by (rule_tac notI) simp
    from cg u'(1) vk have "(u', v) \<in> (grel g)\<^sup>*" unfolding connected_graph_def by simp
    then have "\<exists>x. (u', x) \<in> grel g"
    proof (cases rule: converse_rtranclE)
      case base
      with \<open>u' \<noteq> v\<close> show ?thesis by simp
    next
      case (step y)
      from step(1) show ?thesis by (rule exI)
    qed
    then obtain x where "(u', x) \<in> grel g" by (elim exE)
    from img[OF this] show ?thesis unfolding u'(2) by (rule exI)
  qed
  from expand_edge_loop[OF wn le cover] have "expand_edge nd (freeze_id v, freeze_id v) = Inl AssertionError" .
  with le have "Inl AssertionError \<in> set (node_expand nd)"
    unfolding node_expand_def by (simp add: image_iff) metis
  from add_children_error[OF this]
  have ac: "\<exists>e. add_children (node_expand nd) nxt = Inl e" for nxt .
  have "\<exists>nxt. SearchSpaceLevel_init None (Some first_level) = Inr nxt"
    unfolding SearchSpaceLevel_init_def truthy_def by simp
  then obtain nxt where nxt: "SearchSpaceLevel_init None (Some first_level) = Inr nxt" by (elim exE)
  from ac[of nxt] obtain e where e: "add_children (node_expand nd) nxt = Inl e" by (elim exE)
  have "level_expand first_level = (Inl e, first_level\<lparr>l_next := True\<rparr>)"
    unfolding level_expand_def nxt by (simp add: first_level_def e)
  then have "build sp = (Inl e, sp)"
    unfolding build_def sp l0 first_level_def[symmetric] by simp
  then show ?thesis by (rule exI)
qed

lemma build_empty_graph:
  assumes "order (s_graph sp) = 0"
  shows "\<exists>e. build sp = (Inl e, sp)"
proof -
  from assms have "SearchSpaceLevel_init (Some (s_graph sp)) None
      = Inl (ValueError ''Either graph or previous needed'')"
    unfolding SearchSpaceLevel_init_def truthy_def by simp
  then have "build sp = (Inl (ValueError ''Either graph or previous needed''), sp)"
    unfolding build_def by simp
  then show ?thesis by (rule exI)
qed


subsection \<open>String identifiers\<close>

text \<open>\<open>build\<close> is \<open>build_with\<close> at the \<open>freeze\<close> of identifiers that are not iterable.\<close>

lemma build_with_freeze_id: "build_with freeze_id sp = build sp"
  by (simp add: build_with_def build_def SearchSpaceLevel_init_with_def SearchSpaceLevel_init_def)

text \<open>The two graphs with string identifiers are connected and have no self-loop.\<close>

lemma wf_str_path: "wf_graph str_path"
  unfolding str_path_def by (intro wf_graph_add_edge wf_graph_Nil)

lemma grel_str_path:
  "grel str_path = {(''ab'', ''b''), (''b'', ''ab''), (''b'', ''bc''), (''bc'', ''b'')}"
  by (auto simp: str_path_def)

lemma gkeys_str_path: "gkeys str_path = {''ab'', ''b'', ''bc''}"
  by (auto simp: str_path_def)

lemma irrefl_str_path: "irrefl (grel str_path)"
  unfolding grel_str_path by (simp add: irrefl_def)

lemma connected_str_path: "connected_graph str_path"
proof -
  let ?R = "grel str_path"
  have e: "(''ab'', ''b'') \<in> ?R" "(''b'', ''ab'') \<in> ?R" "(''b'', ''bc'') \<in> ?R" "(''bc'', ''b'') \<in> ?R"
    unfolding grel_str_path by simp_all
  have p: "(''ab'', ''bc'') \<in> ?R\<^sup>*" "(''bc'', ''ab'') \<in> ?R\<^sup>*"
    using e by (meson r_into_rtrancl rtrancl_trans)+
  from e p show ?thesis unfolding connected_graph_def gkeys_str_path by (simp add: r_into_rtrancl)
qed

lemma order_str_path: "order str_path = 3"
  by code_simp

lemma counts_str_path_True:
  "map_sum id (map num_partitions) (fst (build_with freeze_str (SearchSpace_init str_path True)))
     = Inr [Inr 1, Inr 1]"
  by code_simp

lemma counts_str_path_False:
  "map_sum id (map num_partitions) (fst (build_with freeze_str (SearchSpace_init str_path False)))
     = Inr [Inr 1, Inr 1]"
  by code_simp

lemma count1_str_path:
  "num_partitions_at (snd (build_with freeze_str (SearchSpace_init str_path True))) 1 = Inr 1"
  by code_simp

lemma lb1_str_path:
  "num_k_partitions_lb (snd (build_with freeze_str (SearchSpace_init str_path True))) 1 = 2"
  by code_simp

lemma wf_str_pair: "wf_graph str_pair"
  unfolding str_pair_def by (intro wf_graph_add_edge wf_graph_Nil)

lemma connected_str_pair: "connected_graph str_pair"
  by (auto simp: connected_graph_def str_pair_def)

lemma irrefl_str_pair: "irrefl (grel str_pair)"
  by (auto simp: irrefl_def str_pair_def)

section \<open>C1: the levels of the 4-cycle\<close>

lemma cycle4_counts_True:
  "map_sum id (map num_partitions) (fst (build (SearchSpace_init cycle4 True))) =
     Inr [Inr 1, Inr 4, Inr 6, Inr 1]"
  by code_simp

lemma cycle4_counts_False:
  "map_sum id (map num_partitions) (fst (build (SearchSpace_init cycle4 False))) =
     Inr [Inr 1, Inr 4, Inr 6, Inr 1]"
  by code_simp

lemma cycle4_total_True:
  "num_partitions_total (snd (build (SearchSpace_init cycle4 True))) = Inr 12"
  by code_simp

lemma cycle4_total_False:
  "num_partitions_total (snd (build (SearchSpace_init cycle4 False))) = Inr 12"
  by code_simp

text \<open>
  C1, as the code has it.  For the cycle on the nodes 1, 2, 3, 4, with or without
  compression, \<open>build\<close> returns four levels whose numbers of distinct partition nodes
  are 1, 4, 6 and 1, and the total number of partitions is 12.
\<close>

theorem cycle4_levels:
  "map_sum id (map num_partitions) (fst (build (SearchSpace_init cycle4 c))) =
     Inr [Inr 1, Inr 4, Inr 6, Inr 1]
   \<and> num_partitions_total (snd (build (SearchSpace_init cycle4 c))) = Inr 12"
  by (cases c) (simp_all add: cycle4_counts_True cycle4_counts_False cycle4_total_True cycle4_total_False)

text \<open>
  C1 as stated (level sizes 1, 4, 3, 1 and a total of 9) does not hold: the level of
  two clusters has six partition nodes, not three.
\<close>

theorem cycle4_levels_counterexample:
  "map_sum id (map num_partitions) (fst (build (SearchSpace_init cycle4 True))) \<noteq>
     Inr [Inr 1, Inr 4, Inr 3, Inr 1]
   \<and> num_partitions_total (snd (build (SearchSpace_init cycle4 True))) \<noteq> Inr 9"
  by (simp add: cycle4_counts_True cycle4_total_True)

section \<open>C2: the levels of a connected graph\<close>

text \<open>
  C2, as the code has it.  For a connected input graph without self-loops, with
  \<open>n \<ge> 2\<close> nodes (and node identifiers that are not iterable, as everywhere in this
  model), \<open>build\<close> returns (it raises nothing and the loop ends) exactly \<open>n\<close> levels;
  level 0 holds exactly one partition node; the final level holds exactly one partition
  node, whose graph has the single vertex of all nodes and no edges (the level is
  returned compressed if the flag is set, and then only the count 1 is left).
\<close>

theorem build_levels:
  assumes "simple_graph g" and "connected_graph g" and "2 \<le> order g" and "s_graph sp = g"
  shows "\<exists>ls l nd. build sp = (Inr ls, sp\<lparr>s_levels := Some ls\<rparr>) \<and> length ls = order g \<and>
     num_partitions (ls ! 0) = Inr 1 \<and> num_partitions (last ls) = Inr 1 \<and>
     last ls = (if s_compress sp then compress l else l) \<and>
     l_nodes l = Some [nd] \<and> edges nd = [] \<and> number_of_edges nd = 0 \<and> nodes nd = [gkeys g]"
proof -
  let ?V = "gkeys g" and ?E = "grel g" and ?c = "s_compress sp"
  let ?m = "order g - 1"
  from assms(3) have n: "order g \<noteq> 0" and li: "last_index (order g) = ?m" and m: "0 < ?m"
    by (auto simp: last_index_def)
  from build_connected[OF assms(1,2) n assms(4)] obtain ls0 where
    b: "build sp =
       (Inr (if ?c then butlast ls0 @ [compress (last ls0)] else ls0),
        sp\<lparr>s_levels := Some (if ?c then butlast ls0 @ [compress (last ls0)] else ls0)\<rparr>)"
    and len: "length ls0 = Suc ?m" and d: "\<forall>i<?m. done_level g ?c i (ls0 ! i)"
    and o: "open_level g ?m (last ls0)"
    unfolding li by blast
  let ?ls = "if ?c then butlast ls0 @ [compress (last ls0)] else ls0"
  from len have ne: "ls0 \<noteq> []" by auto
  have l1: "length ?ls = order g" using len assms(3) by simp
  have "?ls ! 0 = ls0 ! 0" using len m by (simp add: nth_append nth_butlast)
  moreover from d m have "done_level g ?c 0 (ls0 ! 0)" by simp
  ultimately have h: "num_partitions (?ls ! 0) = Inr 1"
    by (simp add: done_level_def card_image inj_on_def del: One_nat_def)
  note lp = level_conditions(3)[OF assms(1,2) n assms(3)]
  from o obtain ns where ns: "l_nodes (last ls0) = Some ns" "good_nodes g ns"
    "gkeys ` set ns = {{?V}}" and np: "l_num_partitions (last ls0) = None"
    unfolding open_level_def lp by auto
  from good_nodes_length[OF ns(2)] ns(3) have "length ns = 1" by simp
  then obtain nd where nd: "ns = [nd]" by (cases ns) auto
  with ns have k: "gkeys nd = {?V}" and pn: "pnode g nd" by (auto simp: good_nodes_def)
  from pn k have "grel nd = {}" by (auto simp: pnode_def qrel_def)
  with edges_subset[of nd] have e: "edges nd = []" by auto
  from pn have w: "wf_graph nd" by (simp add: pnode_def)
  have ne0: "number_of_edges nd = 0" by (simp add: number_of_edges_length[OF w] e)
  from w have "distinct (map fst nd)" by (simp add: wf_graph_def)
  with k have "length (map fst nd) = 1" using distinct_card[of "map fst nd"] by (simp add: gkeys_def)
  then obtain x where "map fst nd = [x]" by (cases "map fst nd") auto
  with k have nn: "nodes nd = [?V]" by (simp add: nodes_def gkeys_def)
  have la: "last ?ls = (if ?c then compress (last ls0) else last ls0)" using ne by simp
  have "num_partitions (last ?ls) = Inr 1"
    unfolding la using ns(1) np nd by (simp add: num_partitions_def compress_def)
  with b l1 h la ns(1) nd e ne0 nn show ?thesis by blast
qed

theorem build_levels_witness:
  "simple_graph path2 \<and> connected_graph path2 \<and> 2 \<le> order path2
   \<and> (\<exists>ls l nd. build (SearchSpace_init path2 False) =
         (Inr ls, (SearchSpace_init path2 False)\<lparr>s_levels := Some ls\<rparr>) \<and> length ls = 2 \<and>
       num_partitions (ls ! 0) = Inr 1 \<and> num_partitions (last ls) = Inr 1 \<and>
       last ls = l \<and> l_nodes l = Some [nd] \<and> edges nd = [] \<and> nodes nd = [{1, 2}])"
proof -
  have o: "order path2 = 2" by code_simp
  then have o2: "2 \<le> order path2" by simp
  have s: "s_graph (SearchSpace_init path2 False) = path2" by (simp add: SearchSpace_init_def)
  have c: "\<not> s_compress (SearchSpace_init path2 False)" by (simp add: SearchSpace_init_def)
  have k: "gkeys path2 = {1, 2}" by (auto simp: path2_def)
  from build_levels[OF simple_path2 connected_path2 o2 s] c o k
  have "\<exists>ls l nd. build (SearchSpace_init path2 False) =
         (Inr ls, (SearchSpace_init path2 False)\<lparr>s_levels := Some ls\<rparr>) \<and> length ls = 2 \<and>
       num_partitions (ls ! 0) = Inr 1 \<and> num_partitions (last ls) = Inr 1 \<and>
       last ls = l \<and> l_nodes l = Some [nd] \<and> edges nd = [] \<and> nodes nd = [{1, 2}]"
    by simp blast
  with simple_path2 connected_path2 o2 show ?thesis by blast
qed

text \<open>
  C2 as stated (for every connected graph with \<open>n \<ge> 1\<close> nodes) does not hold.  For
  \<open>n = 1\<close>: \<open>build\<close> expands the first level before it tests anything, so the graph of a
  single node gives two levels, and the final one holds no partition node.  For a graph
  with a self-loop: on the connected graph on 1, 2 with the edge 1-2 and a self-loop at
  1, the assertion in \<open>expand\<close> fails and \<open>build\<close> raises, with either flag.
\<close>

theorem build_levels_counterexample:
  "simple_graph single1 \<and> connected_graph single1 \<and> order single1 = 1
   \<and> fst (build (SearchSpace_init single1 False)) =
       Inr [\<lparr>l_nodes = Some [[({1}, [])]], l_level = 0, l_num_partitions = None,
               l_next = True, l_previous = False\<rparr>,
            \<lparr>l_nodes = Some [], l_level = 1, l_num_partitions = None,
               l_next = False, l_previous = True\<rparr>]
   \<and> map_sum id (map num_partitions) (fst (build (SearchSpace_init single1 True))) =
       Inr [Inr 1, Inr 0]
   \<and> wf_graph loop_graph \<and> connected_graph loop_graph \<and> order loop_graph = 2
   \<and> fst (build (SearchSpace_init loop_graph False)) = Inl AssertionError
   \<and> fst (build (SearchSpace_init loop_graph True)) = Inl AssertionError"
proof -
  have a: "order single1 = 1" by code_simp
  have b: "fst (build (SearchSpace_init single1 False)) =
       Inr [\<lparr>l_nodes = Some [[({1}, [])]], l_level = 0, l_num_partitions = None,
               l_next = True, l_previous = False\<rparr>,
            \<lparr>l_nodes = Some [], l_level = 1, l_num_partitions = None,
               l_next = False, l_previous = True\<rparr>]" by code_simp
  have c: "map_sum id (map num_partitions) (fst (build (SearchSpace_init single1 True))) =
       Inr [Inr 1, Inr 0]" by code_simp
  have d: "order loop_graph = 2" by code_simp
  from simple_single1 connected_single1 a b c wf_loop_graph connected_loop_graph d
    build_loop_graph_False build_loop_graph_True
  show ?thesis by blast
qed

section \<open>C3: expanding and building a second time\<close>

definition levels_path2 :: "nat SearchSpaceLevel list" where
  "levels_path2 = [\<lparr>l_nodes = None, l_level = 0, l_num_partitions = Some 1, l_next = True, l_previous = False\<rparr>,
     \<lparr>l_nodes = None, l_level = 1, l_num_partitions = Some 1, l_next = False, l_previous = True\<rparr>]"

lemma build_path2:
  "build (SearchSpace_init path2 True) =
     (Inr levels_path2, \<lparr>s_graph = path2, s_compress = True, s_levels = Some levels_path2\<rparr>)"
  by code_simp

lemma build_again:
  assumes "build sp = (r, sp')"
  shows "build sp' = (r, sp')"
proof -
  have g: "s_graph sp' = s_graph sp" "s_compress sp' = s_compress sp"
    using assms by (auto simp: build_def Let_def split: sum.splits prod.splits)
  have "\<exists>x. sp' = sp\<lparr>s_levels := x\<rparr>"
    using assms
    apply (auto simp: build_def Let_def split: sum.splits prod.splits)
    apply (rule exI[of _ "s_levels sp"], simp)+
    done
  then obtain x where x: "sp' = sp\<lparr>s_levels := x\<rparr>" by blast
  show ?thesis using assms unfolding x
    by (auto simp: build_def Let_def split: sum.splits prod.splits)
qed

text \<open>
  C3, as the code has it.  A level that has produced its next level has \<open>_next\<close> set,
  and \<open>expand\<close> on a level with \<open>_next\<close> set raises \<open>ValueError('Already expanded')\<close> and
  leaves the level as it was.  \<open>build\<close> has no such guard: called again on the search
  space a first call left, it builds from the stored graph again and returns what the
  first call returned, leaving the search space as the first call left it.
\<close>

theorem expand_and_build_again:
  "(level_expand l = (Inr nxt, l') \<longrightarrow> level_expand l' = (Inl (ValueError ''Already expanded''), l'))
   \<and> (l_next l \<longrightarrow> level_expand l = (Inl (ValueError ''Already expanded''), l))
   \<and> (build sp = (r, sp') \<longrightarrow> build sp' = (r, sp'))"
  using build_again[of sp r sp']
  by (auto simp: level_expand_def split: if_splits sum.splits option.splits)

text \<open>
  C3 as stated (a second \<open>build\<close> fails) does not hold: on the path of two nodes the
  second call returns the two levels.
\<close>

theorem build_again_counterexample:
  "fst (build (snd (build (SearchSpace_init path2 True)))) = Inr levels_path2"
  by code_simp

theorem expand_and_build_again_witness:
  "build (SearchSpace_init path2 True) =
     (Inr levels_path2, \<lparr>s_graph = path2, s_compress = True, s_levels = Some levels_path2\<rparr>)
   \<and> build \<lparr>s_graph = path2, s_compress = True, s_levels = Some levels_path2\<rparr> =
     (Inr levels_path2, \<lparr>s_graph = path2, s_compress = True, s_levels = Some levels_path2\<rparr>)
   \<and> l_next (hd levels_path2)
   \<and> level_expand (hd levels_path2) = (Inl (ValueError ''Already expanded''), hd levels_path2)"
proof -
  have n: "l_next (hd levels_path2)" by (simp add: levels_path2_def)
  from expand_and_build_again[of "hd levels_path2" undefined undefined "SearchSpace_init path2 True"
      "Inr levels_path2" "\<lparr>s_graph = path2, s_compress = True, s_levels = Some levels_path2\<rparr>"]
    build_path2 n
  show ?thesis by simp
qed

section \<open>C4: equality and hash of partition nodes\<close>

definition node_a :: "nat SearchSpaceNode" where
  "node_a = add_node (add_edge [] {1} {2}) {3}"

definition node_b :: "nat SearchSpaceNode" where
  "node_b = add_edge [] {2} {1}"

text \<open>
  C4.  For partition nodes \<open>a\<close> and \<open>b\<close> (graphs as the library builds them, which
  every result of the constructor is by \<open>SearchSpaceNode_init_wf\<close>, with non-empty
  finite labels): equal edge sets give \<open>a == b\<close> and equal hashes, whatever the vertex
  sets are; \<open>a == b\<close> gives equal hashes; and the hash is computed without an exception
  from the sorted list of the sorted edges, which does not depend on the order in which
  the edges are enumerated nor on the order of the two ends of an edge.
\<close>

theorem node_eq_hash:
  assumes "wf_graph a" "labels_fin a" "wf_graph b" "labels_fin b"
  shows "(edge_set a = edge_set b \<longrightarrow> node_eq a b \<and> node_hash a = node_hash b)
       \<and> (node_eq a b \<longrightarrow> node_hash a = node_hash b)
       \<and> node_hash a = Inr (sort_key pair_key (map canon (edges a)))"
  using node_eq_iff[OF assms(1,3)] node_hash_edge_set[OF assms] node_hash_canon[OF assms(1,2)]
  by blast

theorem node_eq_hash_witness:
  "wf_graph node_a \<and> labels_fin node_a \<and> wf_graph node_b \<and> labels_fin node_b
   \<and> edge_set node_a = edge_set node_b \<and> gkeys node_a \<noteq> gkeys node_b
   \<and> edges node_a = [({1}, {2})] \<and> edges node_b = [({2}, {1})]
   \<and> node_eq node_a node_b \<and> node_hash node_a = node_hash node_b
   \<and> node_hash node_a = Inr [({1}, {2})]"
proof -
  have wa: "wf_graph node_a" unfolding node_a_def
    by (intro wf_graph_add_node wf_graph_add_edge wf_graph_Nil)
  have wb: "wf_graph node_b" unfolding node_b_def
    by (intro wf_graph_add_node wf_graph_add_edge wf_graph_Nil)
  have la: "labels_fin node_a" by (simp add: labels_fin_def node_a_def)
  have lb: "labels_fin node_b" by (simp add: labels_fin_def node_b_def)
  have ea: "edges node_a = [({1}, {2})]" by code_simp
  have eb: "edges node_b = [({2}, {1})]" by code_simp
  have es: "edge_set node_a = edge_set node_b"
    by (simp add: edge_set_def ea eb insert_commute)
  have "{3} \<in> gkeys node_a" "{3} \<notin> gkeys node_b" by (simp_all add: node_a_def node_b_def)
  then have ks: "gkeys node_a \<noteq> gkeys node_b" by blast
  have h: "node_hash node_a = Inr [({1}, {2})]" by code_simp
  from node_eq_hash[OF wa la wb lb] es h wa la wb lb ks ea eb show ?thesis by simp
qed

section \<open>C5: compression keeps the count\<close>

definition level_cycle4 :: "nat SearchSpaceLevel" where
  "level_cycle4 = \<lparr>l_nodes = Some [[({1}, [{2}, {4}]), ({2}, [{1}, {3}]), ({4}, [{1}, {3}]), ({3}, [{2}, {4}])]],
     l_level = 0, l_num_partitions = None, l_next = False, l_previous = False\<rparr>"

lemma level_cycle4: "SearchSpaceLevel_init (Some cycle4) None = Inr level_cycle4"
  by code_simp

text \<open>
  C5.  For a level in one of its two states (\<open>level_ok\<close>, which holds of every level
  the constructor, \<open>expand\<close>, \<open>compress\<close> and \<open>build\<close> produce: \<open>level_ok_init\<close>,
  \<open>level_ok_expand\<close>, \<open>level_ok_compress\<close>, \<open>build_levels_ok\<close>), \<open>num_partitions\<close> read
  after \<open>compress\<close> is \<open>num_partitions\<close> read before it, and a second \<open>compress\<close> changes
  nothing and does not raise.
\<close>

theorem compress_round_trip:
  assumes "level_ok l"
  shows "num_partitions (compress l) = num_partitions l
       \<and> compress (compress l) = compress l
       \<and> num_partitions (compress (compress l)) = num_partitions l"
  using assms by (auto simp: level_ok_def compress_def num_partitions_def split: option.splits)

theorem compress_round_trip_witness:
  "level_ok level_cycle4
   \<and> num_partitions (compress level_cycle4) = Inr 1
   \<and> num_partitions level_cycle4 = Inr 1
   \<and> compress (compress level_cycle4) = compress level_cycle4"
proof -
  have ok: "level_ok level_cycle4" by (simp add: level_ok_def level_cycle4_def)
  have "num_partitions level_cycle4 = Inr 1" by (simp add: num_partitions_def level_cycle4_def)
  with compress_round_trip[OF ok] ok show ?thesis by simp
qed

section \<open>C6: queries on a compressed level\<close>

text \<open>
  C6, as the code has it.  \<open>mean_num_edges\<close> raises the error of a compressed search
  space exactly on the compressed levels.  Printing is different: for a compressed
  level \<open>print_results\<close> prints the line of the level and no dump, and raises nothing.
\<close>

theorem compressed_level_queries:
  "(mean_num_edges l = Inl (ValueError ''The search space is compressed, computation impossible''))
     = (l_nodes l = None)
   \<and> print_level sp print_nodes (l\<lparr>l_nodes := None, l_num_partitions := Some p\<rparr>) =
       ([LevelLine (l_level l) (int (num_nodes sp) - int (l_level l)) (stirling sp (int (l_level l))) p],
        None)"
  by (auto simp: mean_num_edges_def print_level_def num_partitions_def split: option.splits)

text \<open>
  C6 as stated (dumping the partitions of a compressed level fails) does not hold:
  \<open>print_results\<close> with \<open>print_nodes\<close> set, on a search space built with compression,
  prints every line but the dumps and raises nothing.
\<close>

theorem compressed_dump_counterexample:
  "print_results (snd (build (SearchSpace_init path2 True))) True =
     ([BellLine 2, ActualLine 2, LevelLine 0 2 1 1, LevelLine 1 1 1 1, EmptyLine], None)"
  by code_simp

section \<open>C7: the bounds on the count of every level\<close>

lemma wf_cycle4: "wf_graph cycle4"
  unfolding cycle4_def by (intro wf_graph_add_edge wf_graph_Nil)

lemma grel_cycle4:
  "grel cycle4 = {(1, 2), (2, 1), (2, 3), (3, 2), (3, 4), (4, 3), (4, 1), (1, 4)}"
  by (auto simp: cycle4_def)

lemma gkeys_cycle4: "gkeys cycle4 = {1, 2, 3, 4}"
  by (auto simp: cycle4_def)

lemma irrefl_cycle4: "irrefl (grel cycle4)"
  unfolding grel_cycle4 by (simp add: irrefl_def)

lemma connected_cycle4: "connected_graph cycle4"
proof -
  let ?R = "grel cycle4"
  have e: "(1, 2) \<in> ?R" "(2, 3) \<in> ?R" "(3, 4) \<in> ?R" "(4, 1) \<in> ?R"
    unfolding grel_cycle4 by simp_all
  have a: "(1, 2) \<in> ?R\<^sup>*" "(2, 3) \<in> ?R\<^sup>*" "(3, 4) \<in> ?R\<^sup>*" "(4, 1) \<in> ?R\<^sup>*"
    using e by (simp_all add: r_into_rtrancl)
  have b: "(1, 3) \<in> ?R\<^sup>*" "(2, 4) \<in> ?R\<^sup>*" "(3, 1) \<in> ?R\<^sup>*" "(4, 2) \<in> ?R\<^sup>*"
    using a by (meson rtrancl_trans)+
  have c: "(1, 4) \<in> ?R\<^sup>*" "(2, 1) \<in> ?R\<^sup>*" "(3, 2) \<in> ?R\<^sup>*" "(4, 3) \<in> ?R\<^sup>*"
    using a b by (meson rtrancl_trans)+
  from a b c show ?thesis unfolding connected_graph_def gkeys_cycle4 by simp
qed

lemma compressed_levels_cycle4:
  "fst (build (SearchSpace_init cycle4 True)) =
     Inr [\<lparr>l_nodes = None, l_level = 0, l_num_partitions = Some 1, l_next = True, l_previous = False\<rparr>,
          \<lparr>l_nodes = None, l_level = 1, l_num_partitions = Some 4, l_next = True, l_previous = True\<rparr>,
          \<lparr>l_nodes = None, l_level = 2, l_num_partitions = Some 6, l_next = True, l_previous = True\<rparr>,
          \<lparr>l_nodes = None, l_level = 3, l_num_partitions = Some 1, l_next = False, l_previous = True\<rparr>]"
  by code_simp

lemma count2_cycle4:
  "num_partitions_at (snd (build (SearchSpace_init cycle4 True))) 2 = Inr 6"
  by code_simp

lemma lb2_cycle4: "num_k_partitions_lb (snd (build (SearchSpace_init cycle4 True))) 2 = 3"
  by code_simp

lemma ub2_cycle4: "num_k_partitions_ub (snd (build (SearchSpace_init cycle4 True))) 2 = 7"
  by code_simp

text \<open>
  C7, as the code has it.  Take a connected input graph whose node identifiers are not
  iterable (\<open>build\<close> is the method on such a graph; \<open>wf_graph\<close> says that the argument is
  a graph of the library, with symmetric adjacency).  If the graph has a node and no
  self-loop, \<open>build\<close> returns its levels.  Whenever \<open>build\<close> returns levels, then for
  every index \<open>i\<close> of a level, \<open>0 \<le> i < num_levels\<close>, \<open>num_partitions(i)\<close> returns the
  count of the level and
  \<open>num_k_partitions_lb(i) \<le> num_partitions(i) \<le> num_k_partitions_ub(i)\<close>, where the upper
  bound is the Stirling number of the second kind \<open>S(n, n - i)\<close> and the lower bound is
  the binomial coefficient of \<open>n - 1\<close> and \<open>n - i - 1\<close>.  (On a graph with a self-loop and
  on the graph without nodes \<open>build\<close> raises, and there is no built search space.)
\<close>

theorem level_bounds:
  assumes "wf_graph g" and "connected_graph g" and "s_graph sp = g"
  shows "(irrefl (grel g) \<and> order g \<noteq> 0 \<longrightarrow> (\<exists>ls. fst (build sp) = Inr ls)) \<and>
     (\<forall>ls i. fst (build sp) = Inr ls \<and> i < length ls \<longrightarrow>
        (\<exists>k. num_partitions_at (snd (build sp)) (int i) = Inr k \<and>
             num_k_partitions_lb (snd (build sp)) (int i) \<le> int k \<and>
             int k \<le> num_k_partitions_ub (snd (build sp)) (int i)))"
proof (intro conjI impI allI)
  assume "irrefl (grel g) \<and> order g \<noteq> 0"
  with assms(1) have sg: "simple_graph g" and n: "order g \<noteq> 0" by (simp_all add: simple_graph_def)
  from build_level_bounds[OF sg assms(2) n assms(3)]
  obtain ls sp' where "build sp = (Inr ls, sp')" by (elim exE conjE)
  then have "fst (build sp) = Inr ls" by simp
  then show "\<exists>ls. fst (build sp) = Inr ls" by (rule exI)
next
  fix ls i
  assume a: "fst (build sp) = Inr ls \<and> i < length ls"
  have irr: "irrefl (grel g)"
  proof (rule irreflI, rule notI)
    fix v assume "(v, v) \<in> grel g"
    from build_self_loop[OF assms(1,2) this assms(3)] obtain e where "build sp = (Inl e, sp)"
      by (elim exE)
    with a show False by simp
  qed
  have n: "order g \<noteq> 0"
  proof
    assume "order g = 0"
    then have "order (s_graph sp) = 0" using assms(3) by simp
    from build_empty_graph[OF this] obtain e where "build sp = (Inl e, sp)" by (elim exE)
    with a show False by simp
  qed
  from assms(1) irr have sg: "simple_graph g" by (simp add: simple_graph_def)
  from build_level_bounds[OF sg assms(2) n assms(3)]
  obtain ls' sp' where b: "build sp = (Inr ls', sp')"
    and bd: "\<forall>i<length ls'. \<exists>k. num_partitions_at sp' (int i) = Inr k \<and>
        num_k_partitions_lb sp' (int i) \<le> int k \<and> int k \<le> num_k_partitions_ub sp' (int i)"
    by (elim exE conjE)
  from b a have "ls' = ls" and s: "snd (build sp) = sp'" by simp_all
  with a bd show "\<exists>k. num_partitions_at (snd (build sp)) (int i) = Inr k \<and>
             num_k_partitions_lb (snd (build sp)) (int i) \<le> int k \<and>
             int k \<le> num_k_partitions_ub (snd (build sp)) (int i)"
    by simp
qed

theorem level_bounds_witness:
  "wf_graph cycle4 \<and> connected_graph cycle4 \<and> irrefl (grel cycle4) \<and> order cycle4 \<noteq> 0
   \<and> fst (build (SearchSpace_init cycle4 True)) =
     Inr [\<lparr>l_nodes = None, l_level = 0, l_num_partitions = Some 1, l_next = True, l_previous = False\<rparr>,
          \<lparr>l_nodes = None, l_level = 1, l_num_partitions = Some 4, l_next = True, l_previous = True\<rparr>,
          \<lparr>l_nodes = None, l_level = 2, l_num_partitions = Some 6, l_next = True, l_previous = True\<rparr>,
          \<lparr>l_nodes = None, l_level = 3, l_num_partitions = Some 1, l_next = False, l_previous = True\<rparr>]
   \<and> num_partitions_at (snd (build (SearchSpace_init cycle4 True))) 2 = Inr 6
   \<and> num_k_partitions_lb (snd (build (SearchSpace_init cycle4 True))) 2 = 3
   \<and> num_k_partitions_ub (snd (build (SearchSpace_init cycle4 True))) 2 = 7
   \<and> (\<exists>k. num_partitions_at (snd (build (SearchSpace_init cycle4 True))) (int 2) = Inr k \<and>
             num_k_partitions_lb (snd (build (SearchSpace_init cycle4 True))) (int 2) \<le> int k \<and>
             int k \<le> num_k_partitions_ub (snd (build (SearchSpace_init cycle4 True))) (int 2))"
proof -
  have o: "order cycle4 \<noteq> 0" by code_simp
  have s: "s_graph (SearchSpace_init cycle4 True) = cycle4" by (simp add: SearchSpace_init_def)
  define ls :: "nat SearchSpaceLevel list" where "ls =
     [\<lparr>l_nodes = None, l_level = 0, l_num_partitions = Some 1, l_next = True, l_previous = False\<rparr>,
      \<lparr>l_nodes = None, l_level = 1, l_num_partitions = Some 4, l_next = True, l_previous = True\<rparr>,
      \<lparr>l_nodes = None, l_level = 2, l_num_partitions = Some 6, l_next = True, l_previous = True\<rparr>,
      \<lparr>l_nodes = None, l_level = 3, l_num_partitions = Some 1, l_next = False, l_previous = True\<rparr>]"
  have "fst (build (SearchSpace_init cycle4 True)) = Inr ls \<and> 2 < length ls"
    using compressed_levels_cycle4 unfolding ls_def by simp
  with level_bounds[OF wf_cycle4 connected_cycle4 s]
  have "\<exists>k. num_partitions_at (snd (build (SearchSpace_init cycle4 True))) (int 2) = Inr k \<and>
             num_k_partitions_lb (snd (build (SearchSpace_init cycle4 True))) (int 2) \<le> int k \<and>
             int k \<le> num_k_partitions_ub (snd (build (SearchSpace_init cycle4 True))) (int 2)"
    by blast
  with wf_cycle4 connected_cycle4 irrefl_cycle4 o compressed_levels_cycle4
    count2_cycle4 lb2_cycle4 ub2_cycle4
  show ?thesis by simp
qed

text \<open>
  C7 as stated (for every connected input graph) does not hold when the node identifiers
  are strings.  \<open>freeze\<close> then builds the label of a node from the characters of its
  identifier, and the labels of different nodes overlap.  On the path \<open>'ab'\<close>, \<open>'b'\<close>,
  \<open>'bc'\<close>, which is connected and has three nodes and no self-loop, merging either edge
  gives the same partition node, the edge between \<open>{a, b}\<close> and \<open>{b, c}\<close>: \<open>build\<close>
  returns two levels, and level 1 holds one partition node, where the lower bound, the
  binomial coefficient of 2 and 1, is 2.
\<close>

theorem level_bounds_counterexample:
  "wf_graph str_path \<and> connected_graph str_path \<and> irrefl (grel str_path) \<and> order str_path = 3
   \<and> map_sum id (map num_partitions)
        (fst (build_with freeze_str (SearchSpace_init str_path True))) = Inr [Inr 1, Inr 1]
   \<and> map_sum id (map num_partitions)
        (fst (build_with freeze_str (SearchSpace_init str_path False))) = Inr [Inr 1, Inr 1]
   \<and> num_partitions_at (snd (build_with freeze_str (SearchSpace_init str_path True))) 1 = Inr 1
   \<and> num_k_partitions_lb (snd (build_with freeze_str (SearchSpace_init str_path True))) 1 = 2
   \<and> \<not> num_k_partitions_lb (snd (build_with freeze_str (SearchSpace_init str_path True))) 1 \<le> 1"
proof -
  have "\<not> num_k_partitions_lb (snd (build_with freeze_str (SearchSpace_init str_path True))) 1 \<le> 1"
    unfolding lb1_str_path by simp
  with wf_str_path connected_str_path irrefl_str_path order_str_path
    counts_str_path_True counts_str_path_False count1_str_path lb1_str_path
  show ?thesis by simp
qed

section \<open>C8: the assertion in \<open>expand\<close>\<close>

definition root_loop :: "nat SearchSpaceNode" where
  "root_loop = [({1}, [{1}, {2}]), ({2}, [{1}])]"

definition root_path2 :: "nat SearchSpaceNode" where
  "root_path2 = [({1}, [{2}]), ({2}, [{1}])]"

lemma root_path2: "SearchSpaceNode_init id_lt freeze_id path2 = Inr root_path2"
  by code_simp

text \<open>
  C8, as the code has it.  For a connected input graph without self-loops (with node
  identifiers that are not iterable, as everywhere in this model) and every partition
  node reachable from it, every item that \<open>expand\<close> yields is a child (no exception is
  raised, so the assertion holds each time), and the vertex count of the child is one
  less than that of the node.
\<close>

theorem expand_never_fails:
  assumes "simple_graph g" "connected_graph g" "reachable g nd"
  shows "\<forall>r\<in>set (node_expand nd). \<exists>c. r = Inr c \<and> int (order c) = int (order nd) - 1"
proof
  fix r assume "r \<in> set (node_expand nd)"
  then obtain e where e: "e \<in> set (edges nd)" "r = expand_edge nd e"
    by (auto simp: node_expand_def)
  obtain s t where st: "e = (s, t)" by (cases e)
  from expand_edge_pnode[OF assms(1,2) reachable_pnode[OF assms], of s t] e st
  show "\<exists>c. r = Inr c \<and> int (order c) = int (order nd) - 1" by auto
qed

theorem expand_never_fails_witness:
  "simple_graph path2 \<and> connected_graph path2 \<and> reachable path2 root_path2
   \<and> node_expand root_path2 = [Inr [({1, 2}, [])]]
   \<and> int (order [({1::nat, 2}, [])]) = int (order root_path2) - 1"
proof -
  have r: "reachable path2 root_path2" by (rule reachable.root[OF root_path2])
  have e: "node_expand root_path2 = [Inr [({1, 2}, [])]]" by code_simp
  from expand_never_fails[OF simple_path2 connected_path2 r] e simple_path2 connected_path2 r
  show ?thesis by simp
qed

text \<open>
  C8 as stated (for every connected input graph) does not hold: the graph on 1, 2 with
  the edge 1-2 and a self-loop at 1 is connected, and for both edges of its root the
  graph that \<open>expand\<close> builds keeps two vertices, so the assertion fails each time.
\<close>

theorem expand_never_fails_counterexample:
  "wf_graph loop_graph \<and> connected_graph loop_graph
   \<and> edges loop_graph = [(1, 1), (1, 2)]
   \<and> SearchSpaceNode_init id_lt freeze_id loop_graph = Inr root_loop
   \<and> reachable loop_graph root_loop
   \<and> node_expand root_loop = [Inl AssertionError, Inl AssertionError]"
proof -
  have e: "edges loop_graph = [(1, 1), (1, 2)]" by code_simp
  have r: "SearchSpaceNode_init id_lt freeze_id loop_graph = Inr root_loop" by code_simp
  have x: "node_expand root_loop = [Inl AssertionError, Inl AssertionError]" by code_simp
  from wf_loop_graph connected_loop_graph e r reachable.root[OF r] x show ?thesis by blast
qed

section \<open>C9: the order of the cluster labels\<close>

text \<open>
  C9.  On non-empty labels \<open>__lt__\<close> does not raise and is a strict total order:
  of \<open>x < y\<close>, \<open>x == y\<close> and \<open>y < x\<close> exactly one holds, and the relation is transitive.
  The smaller smallest member decides; in general \<open>x < y\<close> is the lexicographic
  comparison of the sorted members, in which a proper prefix comes first.  \<open>__gt__\<close>,
  \<open>__le__\<close> and \<open>__ge__\<close> are the converse and the reflexive closures.
\<close>

theorem fset_lt_strict_total_order:
  assumes "finite x" "x \<noteq> {}" "finite y" "y \<noteq> {}" "finite z" "z \<noteq> {}"
  shows "(fset_lt x y = Inr True \<and> x \<noteq> y \<and> fset_lt y x = Inr False
          \<or> fset_lt x y = Inr False \<and> x = y \<and> fset_lt y x = Inr False
          \<or> fset_lt x y = Inr False \<and> x \<noteq> y \<and> fset_lt y x = Inr True)
       \<and> (fset_lt x y = Inr True \<and> fset_lt y z = Inr True \<longrightarrow> fset_lt x z = Inr True)
       \<and> (Min x < Min y \<longrightarrow> fset_lt x y = Inr True)
       \<and> (Min y < Min x \<longrightarrow> fset_lt x y = Inr False)
       \<and> fset_lt x y = Inr (ord_class.lexordp (sorted_list_of_set x) (sorted_list_of_set y))
       \<and> ((\<exists>zs. zs \<noteq> [] \<and> sorted_list_of_set y = sorted_list_of_set x @ zs) \<longrightarrow> fset_lt x y = Inr True)
       \<and> fset_gt x y = fset_lt y x
       \<and> fset_le x y = Inr (x = y \<or> fset_lt x y = Inr True)
       \<and> fset_ge x y = Inr (x = y \<or> fset_lt y x = Inr True)"
proof -
  let ?sx = "sorted_list_of_set x" and ?sy = "sorted_list_of_set y" and ?sz = "sorted_list_of_set z"
  have xy: "fset_lt x y = Inr (ord_class.lexordp ?sx ?sy)" and yx: "fset_lt y x = Inr (ord_class.lexordp ?sy ?sx)"
    and yz: "fset_lt y z = Inr (ord_class.lexordp ?sy ?sz)" and xz: "fset_lt x z = Inr (ord_class.lexordp ?sx ?sz)"
    using assms by (simp_all add: fset_lt_lexordp)
  have inj: "?sx = ?sy \<longleftrightarrow> x = y"
    using assms sorted_list_of_set_inject by blast
  have lin: "ord_class.lexordp ?sx ?sy \<or> ?sx = ?sy \<or> ord_class.lexordp ?sy ?sx" by (rule lexordp_linear)
  have asym: "\<not> (ord_class.lexordp ?sx ?sy \<and> ord_class.lexordp ?sy ?sx)" using lexordp_antisym by blast
  have irr: "\<not> ord_class.lexordp ?sx ?sx" by (rule lexordp_irreflexive')
  have tri: "fset_lt x y = Inr True \<and> x \<noteq> y \<and> fset_lt y x = Inr False
          \<or> fset_lt x y = Inr False \<and> x = y \<and> fset_lt y x = Inr False
          \<or> fset_lt x y = Inr False \<and> x \<noteq> y \<and> fset_lt y x = Inr True"
    unfolding xy yx using lin asym irr inj by auto
  have tr: "fset_lt x y = Inr True \<and> fset_lt y z = Inr True \<longrightarrow> fset_lt x z = Inr True"
    unfolding xy yz xz using lexordp_trans by auto
  have m1: "Min x < Min y \<longrightarrow> fset_lt x y = Inr True"
    and m2: "Min y < Min x \<longrightarrow> fset_lt x y = Inr False"
    using fset_lt_Min[OF assms(2,4)] by blast+
  have pre: "(\<exists>zs. zs \<noteq> [] \<and> ?sy = ?sx @ zs) \<longrightarrow> fset_lt x y = Inr True"
    unfolding xy by (auto simp: lexordp_append_rightI)
  have gt: "fset_gt x y = fset_lt y x"
    unfolding fset_gt_def xy yx using lin asym irr inj by auto
  have le: "fset_le x y = Inr (x = y \<or> fset_lt x y = Inr True)"
    unfolding fset_le_def xy by auto
  have ge: "fset_ge x y = Inr (x = y \<or> fset_lt y x = Inr True)"
    unfolding fset_ge_def gt yx by auto
  from tri tr m1 m2 xy pre gt le ge show ?thesis by blast
qed

theorem fset_lt_strict_total_order_witness:
  "finite {1::nat, 2} \<and> {1::nat, 2} \<noteq> {} \<and> finite {1::nat, 2, 3} \<and> {1::nat, 2, 3} \<noteq> {}
   \<and> finite {1::nat, 3} \<and> {1::nat, 3} \<noteq> {}
   \<and> fset_lt {1::nat, 2} {1, 2, 3} = Inr True \<and> fset_lt {1::nat, 2, 3} {1, 3} = Inr True
   \<and> fset_lt {1::nat, 2} {1, 3} = Inr True \<and> fset_lt {1::nat, 2, 3} {1, 2} = Inr False"
proof -
  have a: "fset_lt {1::nat, 2} {1, 2, 3} = Inr True" by code_simp
  have b: "fset_lt {1::nat, 2, 3} {1, 3} = Inr True" by code_simp
  have c: "fset_lt {1::nat, 2, 3} {1, 2} = Inr False" by code_simp
  from fset_lt_strict_total_order[of "{1::nat, 2}" "{1, 2, 3}" "{1, 3}"] a b c
  show ?thesis by simp
qed

section \<open>C10: the arguments of the level constructor\<close>

definition level0 :: "nat SearchSpaceLevel" where
  "level0 = \<lparr>l_nodes = Some [], l_level = 0, l_num_partitions = None, l_next = False, l_previous = False\<rparr>"

text \<open>
  C10.  A graph without nodes is falsy, so the constructor called with such a graph
  and no previous level raises \<open>ValueError('Either graph or previous needed')\<close>.  With a
  graph of at least one node, the constructor succeeds on the graph alone and raises
  \<open>ValueError('Only one of graph and previous allowed')\<close> on the graph and a previous
  level; it succeeds on a previous level alone and raises on neither.
\<close>

theorem level_init_arguments:
  "(order g = 0 \<longrightarrow>
      SearchSpaceLevel_init (Some g) None = Inl (ValueError ''Either graph or previous needed''))
   \<and> (order g \<noteq> 0 \<longrightarrow>
      (\<exists>l. SearchSpaceLevel_init (Some g) None = Inr l)
      \<and> SearchSpaceLevel_init (Some g) (Some p) = Inl (ValueError ''Only one of graph and previous allowed''))
   \<and> (\<exists>l. SearchSpaceLevel_init None (Some p) = Inr l)
   \<and> SearchSpaceLevel_init None None = Inl (ValueError ''Either graph or previous needed'')"
proof -
  have "order g \<noteq> 0 \<Longrightarrow> \<exists>l. SearchSpaceLevel_init (Some g) None = Inr l"
    using SearchSpaceLevel_init_graph[of g] by blast
  then show ?thesis
    by (auto simp: SearchSpaceLevel_init_def truthy_def)
qed

theorem level_init_arguments_witness:
  "order ([] :: nat Graph) = 0
   \<and> SearchSpaceLevel_init (Some ([] :: nat Graph)) None = Inl (ValueError ''Either graph or previous needed'')
   \<and> order path2 \<noteq> 0
   \<and> (\<exists>l. SearchSpaceLevel_init (Some path2) None = Inr l)
   \<and> SearchSpaceLevel_init (Some path2) (Some level0) = Inl (ValueError ''Only one of graph and previous allowed'')"
proof -
  have a: "order ([] :: nat Graph) = 0" by (simp add: order_def)
  have b: "order path2 \<noteq> 0" by code_simp
  from level_init_arguments[of "[] :: nat Graph" level0] level_init_arguments[of path2 level0] a b
  show ?thesis by blast
qed


end
